theory Spec2Isabelle
  imports Main "HOL-Library.Word"
begin

section \<open>Data model of udplogger.c\<close>

text \<open>
  The sender identity is the \<open>struct sockaddr_in\<close> that \<open>recvfrom\<close> fills in.
  On the \<open>AF_INET\<close> socket of this program its family field is constant and its
  padding is zero, so \<open>memcmp\<close> over the struct decides equality of address and port.
  \<open>sin_addr\<close> is the IPv4 address read as a big-endian number (first octet on top),
  \<open>sin_port\<close> the port number that \<open>htons(addr->sin_port)\<close> yields.
\<close>

record sockaddr_in =
  sin_addr :: "32 word"
  sin_port :: "16 word"

text \<open>
  \<open>struct client\<close>: \<open>buffer\<close> holds the \<open>avail\<close> valid bytes of the C buffer, so
  \<open>avail\<close> is its length; \<open>stamp\<close> is a \<open>time_t\<close>.
\<close>

record client =
  addr :: sockaddr_in
  buffer :: string
  addr_str :: string
  stamp :: int

definition avail :: "client \<Rightarrow> nat" where
  "avail c = length (buffer c)"

text \<open>The fields of \<open>struct tm\<close> that the program reads.\<close>

record tm =
  tm_sec :: int
  tm_min :: int
  tm_hour :: int
  tm_mday :: int
  tm_mon :: int
  tm_year :: int

text \<open>
  Calls on the log stream, in program order. A stream is named by the file it was opened
  on; \<open>Fopen name ok\<close> records whether the open succeeded. \<open>Fprintf\<close> and \<open>Fwrite\<close>
  carry the bytes the call produces, and every call on a stream carries \<open>log_fp\<close> as it
  stands, \<open>None\<close> for a null pointer (which no call of the loop is given).
\<close>

datatype io =
    Fopen string bool
  | Fclose string
  | Fprintf "string option" string
  | Fwrite "string option" string
  | Fflush "string option"

text \<open>
  The globals of the program, together with the two function-local statics of
  \<open>write_logfile\<close> (\<open>last_time\<close>, and \<open>stamp\<close>, here \<open>stamp_text\<close> because the name
  \<open>stamp\<close> is taken by the field of \<open>client\<close>). \<open>num_clients\<close> is the length of
  \<open>clients\<close>.
\<close>

record state =
  clients :: "client list"
  try_drop_memory_usage :: bool
  log_fp :: "string option"
  last_tm :: tm
  last_time :: int
  stamp_text :: string
  trace :: "io list"

definition num_clients :: "state \<Rightarrow> nat" where
  "num_clients s = length (clients s)"

text \<open>
  The configuration set by \<open>do_init\<close> and never changed afterwards, and the two
  library calls whose result the program branches on: \<open>localtime\<close> (\<open>None\<close> for a
  null pointer) and \<open>fopen\<close> in append mode (\<open>False\<close> for a null pointer).
\<close>

record env =
  max_clients :: int
  wbuf_size :: int
  wait_timeout :: int
  localtime :: "int \<Rightarrow> tm option"
  fopen :: "string \<Rightarrow> bool"

section \<open>Formatting\<close>

definition newline :: char where
  "newline = CHR 0x0A"

definition digit :: "nat \<Rightarrow> char" where
  "digit n = ''0123456789'' ! (n mod 10)"

fun dec :: "nat \<Rightarrow> string" where
  "dec n = (if n < 10 then [digit n] else dec (n div 10) @ [digit n])"

declare dec.simps [simp del]

text \<open>\<open>%0wu\<close> applied to an \<open>int\<close> argument: the value is read as \<open>unsigned\<close>.\<close>

definition fmt_u :: "nat \<Rightarrow> int \<Rightarrow> string" where
  "fmt_u w x = (let d = dec (nat (x mod 2 ^ 32)) in replicate (w - length d) CHR ''0'' @ d)"

text \<open>\<open>snprintf(buf, size, ...)\<close> stores at most \<open>size - 1\<close> bytes of the output.\<close>

definition snprintf :: "nat \<Rightarrow> string \<Rightarrow> string" where
  "snprintf n out = take (n - 1) out"

definition octet :: "nat \<Rightarrow> 32 word \<Rightarrow> nat" where
  "octet k a = (unat a div 2 ^ (8 * k)) mod 256"

definition inet_ntoa :: "32 word \<Rightarrow> string" where
  "inet_ntoa a = dec (octet 3 a) @ ''.'' @ dec (octet 2 a) @ ''.'' @ dec (octet 1 a) @ ''.'' @ dec (octet 0 a)"

definition ymd :: "tm \<Rightarrow> string" where
  "ymd t = fmt_u 4 (tm_year t + 1900) @ ''-'' @ fmt_u 2 (tm_mon t + 1) @ ''-'' @ fmt_u 2 (tm_mday t)"

definition hms :: "tm \<Rightarrow> string" where
  "hms t = fmt_u 2 (tm_hour t) @ '':'' @ fmt_u 2 (tm_min t) @ '':'' @ fmt_u 2 (tm_sec t)"

section \<open>memchr\<close>

text \<open>\<open>memchr(buffer, c, avail)\<close>: the offset of the first \<open>c\<close>, or \<open>None\<close> for a null pointer.\<close>

fun memchr :: "string \<Rightarrow> char \<Rightarrow> nat option" where
  "memchr [] c = None"
| "memchr (x # xs) c = (if x = c then Some 0 else map_option Suc (memchr xs c))"

lemma memchr_Some_less: "memchr b c = Some k \<Longrightarrow> k < length b"
  by (induction b arbitrary: k) (auto split: if_splits)

section \<open>switch_logfile\<close>

definition switch_logfile :: "env \<Rightarrow> tm \<Rightarrow> state \<Rightarrow> state" where
  "switch_logfile e t s =
     (let fp = log_fp s;
          filename = snprintf 15 (ymd t @ ''.log'');
          ok = fopen e filename;
          s1 = s\<lparr>log_fp := (if ok then Some filename else None),
                 trace := trace s @ [Fopen filename ok]\<rparr>
      in case fp of
           None \<Rightarrow> s1
         | Some old \<Rightarrow>
             (if ok then s1\<lparr>trace := trace s1 @ [Fclose old]\<rparr>
              else s1\<lparr>log_fp := Some old\<rparr>)\<lparr>try_drop_memory_usage := True\<rparr>)"

section \<open>write_logfile\<close>

text \<open>Lines 81 to 100: the stamp is rebuilt when the second has changed.\<close>

definition refresh_stamp :: "env \<Rightarrow> int \<Rightarrow> state \<Rightarrow> state" where
  "refresh_stamp e now_time s =
     (let t = (case localtime e now_time of None \<Rightarrow> last_tm s | Some t' \<Rightarrow> t');
          s1 = s\<lparr>stamp_text := snprintf 23 (ymd t @ '' '' @ hms t @ '' '')\<rparr>;
          s2 = (if tm_mday t \<noteq> tm_mday (last_tm s1) \<or>
                   tm_mon t \<noteq> tm_mon (last_tm s1) \<or>
                   tm_year t \<noteq> tm_year (last_tm s1)
                then switch_logfile e t (s1\<lparr>last_tm := t\<rparr>)
                else s1)
      in s2\<lparr>last_time := now_time\<rparr>)"

text \<open>
  Lines 102 to 111, the loop over the completed lines: \<open>pre\<close> is what
  \<open>fprintf(log_fp, "%s%s", stamp, ptr->addr_str)\<close> prints, and the result is the
  bytes left in the buffer with the extended trace.
\<close>

function write_lines :: "string option \<Rightarrow> string \<Rightarrow> string \<Rightarrow> io list \<Rightarrow> string \<times> io list" where
  "write_lines fp pre b tr =
     (case memchr b newline of
        None \<Rightarrow> (b, tr)
      | Some k \<Rightarrow>
          write_lines fp pre (drop (k + 1) b)
            (tr @ [Fprintf fp pre, Fwrite fp (take (k + 1) b)]))"
  by pat_completeness auto
termination
  by (relation "measure (\<lambda>(fp, pre, b, tr). length b)") (auto dest: memchr_Some_less)

declare write_lines.simps [simp del]

text \<open>
  The same loop read as a function of the buffer alone: the lines it passes to
  \<open>fwrite\<close>, in order, and the bytes it leaves behind.
\<close>

function complete_lines :: "string \<Rightarrow> string list" where
  "complete_lines b =
     (case memchr b newline of
        None \<Rightarrow> []
      | Some k \<Rightarrow> take (k + 1) b # complete_lines (drop (k + 1) b))"
  by pat_completeness auto
termination
  by (relation "measure length") (auto dest: memchr_Some_less)

function remainder :: "string \<Rightarrow> string" where
  "remainder b =
     (case memchr b newline of
        None \<Rightarrow> b
      | Some k \<Rightarrow> remainder (drop (k + 1) b))"
  by pat_completeness auto
termination
  by (relation "measure length") (auto dest: memchr_Some_less)

declare complete_lines.simps [simp del] remainder.simps [simp del]

text \<open>
  The calls that write the complete lines \<open>ls\<close>, and the calls that write the
  unterminated rest \<open>r\<close> when the flush is forced: the shape of the records in the
  trace.
\<close>

definition line_events :: "string option \<Rightarrow> string \<Rightarrow> string list \<Rightarrow> io list" where
  "line_events fp pre ls = concat (map (\<lambda>l. [Fprintf fp pre, Fwrite fp l]) ls)"

definition partial_events :: "string option \<Rightarrow> string \<Rightarrow> bool \<Rightarrow> string \<Rightarrow> io list" where
  "partial_events fp pre forced r =
     (if forced \<and> r \<noteq> [] then [Fprintf fp pre, Fwrite fp r, Fprintf fp [newline]] else [])"

text \<open>
  The shape of a text: \<open>matches pat txt\<close> holds when \<open>txt\<close> has a decimal digit
  wherever \<open>pat\<close> has the letter \<open>d\<close> and the character of \<open>pat\<close> itself everywhere
  else. A timestamp is a text of the shape \<open>YYYY-MM-DD HH:MM:SS\<close>.
\<close>

definition is_digit :: "char \<Rightarrow> bool" where
  "is_digit ch \<longleftrightarrow> ch \<in> set ''0123456789''"

definition matches :: "string \<Rightarrow> string \<Rightarrow> bool" where
  "matches pat txt = list_all2 (\<lambda>p ch. if p = CHR ''d'' then is_digit ch else ch = p) pat txt"

definition is_timestamp :: "string \<Rightarrow> bool" where
  "is_timestamp txt = matches ''dddd-dd-dd dd:dd:dd'' txt"

text \<open>
  The ranges of the fields of \<open>struct tm\<close> that \<open>localtime\<close> fills in, with a year of
  four digits.
\<close>

definition tm_ok :: "tm \<Rightarrow> bool" where
  "tm_ok t \<longleftrightarrow>
     0 \<le> tm_sec t \<and> tm_sec t \<le> 60 \<and> 0 \<le> tm_min t \<and> tm_min t \<le> 59 \<and>
     0 \<le> tm_hour t \<and> tm_hour t \<le> 23 \<and> 1 \<le> tm_mday t \<and> tm_mday t \<le> 31 \<and>
     0 \<le> tm_mon t \<and> tm_mon t \<le> 11 \<and> - 1900 \<le> tm_year t \<and> tm_year t \<le> 8099"

text \<open>The sender as \<open>ip:port\<close>.\<close>

definition ip_port :: "sockaddr_in \<Rightarrow> string" where
  "ip_port a = inet_ntoa (sin_addr a) @ '':'' @ dec (unat (sin_port a))"

text \<open>The calls that switch the log file.\<close>

fun is_switch :: "io \<Rightarrow> bool" where
  "is_switch (Fopen name ok) = True"
| "is_switch (Fclose name) = True"
| "is_switch x = False"

text \<open>The test of lines 93 to 95, negated: two broken-down times on the same day.\<close>

definition same_date :: "tm \<Rightarrow> tm \<Rightarrow> bool" where
  "same_date t u \<longleftrightarrow> tm_mday t = tm_mday u \<and> tm_mon t = tm_mon u \<and> tm_year t = tm_year u"

text \<open>The \<open>fopen\<close> calls of a trace.\<close>

fun opens :: "io list \<Rightarrow> (string \<times> bool) list" where
  "opens [] = []"
| "opens (Fopen name ok # tr) = (name, ok) # opens tr"
| "opens (x # tr) = opens tr"

text \<open>The payloads of the \<open>fwrite\<close> calls of a trace.\<close>

fun fwrites :: "io list \<Rightarrow> string list" where
  "fwrites [] = []"
| "fwrites (Fwrite fp b # tr) = b # fwrites tr"
| "fwrites (x # tr) = fwrites tr"

text \<open>
  \<open>ptr\<close> is \<open>&clients[i]\<close>; every call in the program passes a pointer into the array,
  so an index outside it is left without effect.
\<close>

definition write_logfile :: "env \<Rightarrow> nat \<Rightarrow> bool \<Rightarrow> state \<Rightarrow> state" where
  "write_logfile e i forced s =
     (if i < length (clients s) then
        (let ptr = clients s ! i;
             now_time = stamp ptr;
             s1 = (if last_time s \<noteq> now_time then refresh_stamp e now_time s else s);
             fp = log_fp s1;
             pre = stamp_text s1 @ addr_str ptr;
             (rest, tr) = write_lines fp pre (buffer ptr) (trace s1);
             (rest', tr') =
               (if forced \<and> rest \<noteq> []
                then ([], tr @ [Fprintf fp pre, Fwrite fp rest, Fprintf fp [newline]])
                else (rest, tr))
         in s1\<lparr>clients := (clients s1)[i := ptr\<lparr>buffer := rest'\<rparr>], trace := tr'\<rparr>)
      else s)"

section \<open>drop_memory_usage\<close>

text \<open>
  The loop of lines 137 to 149 on the array: an entry with pending bytes is stepped
  over, an empty one is removed by moving the tail of the array down over it. The
  \<open>realloc\<close> calls only shrink allocations and keep the old block on failure.
\<close>

function drop_loop :: "nat \<Rightarrow> client list \<Rightarrow> client list" where
  "drop_loop i cs =
     (if i < length cs then
        (if avail (cs ! i) \<noteq> 0 then drop_loop (i + 1) cs
         else drop_loop i (take i cs @ drop (i + 1) cs))
      else cs)"
  by pat_completeness auto
termination
  by (relation "measure (\<lambda>(i, cs). length cs - i)") auto

declare drop_loop.simps [simp del]

definition drop_memory_usage :: "state \<Rightarrow> state" where
  "drop_memory_usage s =
     (if \<not> try_drop_memory_usage s then s
      else s\<lparr>try_drop_memory_usage := False, clients := drop_loop 0 (clients s)\<rparr>)"

section \<open>flush_all_and_abort\<close>

definition abort_marker :: string where
  "abort_marker = ''[aborted due to memory allocation failure]'' @ [newline]"

text \<open>
  The body of the loop, for the entry \<open>i\<close>. The \<open>free\<close> of the buffer leaves nothing
  to observe, since the process exits.
\<close>

definition flush_one :: "env \<Rightarrow> nat \<Rightarrow> state \<Rightarrow> state" where
  "flush_one e i s = (if avail (clients s ! i) \<noteq> 0 then write_logfile e i True s else s)"

text \<open>The function does not return: the result is the exit status and the final state.\<close>

definition flush_all_and_abort :: "env \<Rightarrow> state \<Rightarrow> int \<times> state" where
  "flush_all_and_abort e s =
     (let s1 = fold (flush_one e) [0 ..< length (clients s)] s
      in (1, s1\<lparr>trace := trace s1 @ [Fprintf (log_fp s1) abort_marker, Fflush (log_fp s1)]\<rparr>))"

section \<open>find_client\<close>

text \<open>The linear scan of lines 189 to 191.\<close>

fun scan :: "client list \<Rightarrow> sockaddr_in \<Rightarrow> nat \<Rightarrow> nat option" where
  "scan [] a i = None"
| "scan (c # cs) a i = (if addr c = a then Some i else scan cs a (i + 1))"

definition mk_addr_str :: "sockaddr_in \<Rightarrow> string" where
  "mk_addr_str a = snprintf 23 (inet_ntoa (sin_addr a) @ '':'' @ dec (unat (sin_port a)) @ '' '')"

text \<open>
  The result is the index of the returned entry, or \<open>None\<close> for \<open>NULL\<close>. After the
  scan \<open>i\<close> is the number of clients; it is not assigned again, so the second test
  of line 195 reads the same \<open>i\<close> as the first. \<open>alloc_ok\<close> says whether the
  \<open>realloc\<close> of the array succeeds.
\<close>

definition find_client :: "env \<Rightarrow> sockaddr_in \<Rightarrow> bool \<Rightarrow> state \<Rightarrow> nat option \<times> state" where
  "find_client e a alloc_ok s =
     (case scan (clients s) a 0 of
        Some k \<Rightarrow> (Some k, s)
      | None \<Rightarrow>
          (let i = int (length (clients s));
               (full, s1) =
                 (if i \<ge> max_clients e
                  then (i \<ge> max_clients e, drop_memory_usage (s\<lparr>try_drop_memory_usage := True\<rparr>))
                  else (False, s))
           in if full then (None, s1)
              else if \<not> alloc_ok then (None, s1)
              else (Some (length (clients s1)),
                    s1\<lparr>clients := clients s1 @
                       [\<lparr>addr = a, buffer = [], addr_str = mk_addr_str a, stamp = 0\<rparr>]\<rparr>)))"

section \<open>do_main\<close>

text \<open>
  One datagram of the receive loop, lines 247 to 265: \<open>buf\<close> holds the \<open>len\<close> bytes
  received at second \<open>now\<close>, \<open>reg_ok\<close> and \<open>buf_ok\<close> say whether the \<open>realloc\<close> of
  the array and of the client's buffer succeed. \<open>Inl\<close> is the exit of the process.
  The loop is left before this point when \<open>recvfrom\<close> returns no data, so in the
  program \<open>buf\<close> is never empty, and it is at most 65536 bytes long. Lengths are
  natural numbers here; with the limits \<open>do_init\<close> enforces, \<open>avail + len\<close> stays
  below 1114112 and the \<open>int\<close> of the program does not overflow.
\<close>

definition recv_datagram ::
    "env \<Rightarrow> int \<Rightarrow> sockaddr_in \<Rightarrow> string \<Rightarrow> bool \<Rightarrow> bool \<Rightarrow> state \<Rightarrow> (int \<times> state) + state" where
  "recv_datagram e now a buf reg_ok buf_ok s =
     (case find_client e a reg_ok s of
        (None, s1) \<Rightarrow> Inr s1
      | (Some i, s1) \<Rightarrow>
          (let p = clients s1 ! i;
               s2 = (if avail p = 0 then s1\<lparr>clients := (clients s1)[i := p\<lparr>stamp := now\<rparr>]\<rparr> else s1)
           in if \<not> buf_ok then Inl (flush_all_and_abort e s2)
              else
                (let q = clients s2 ! i;
                     s3 = s2\<lparr>clients := (clients s2)[i := q\<lparr>buffer := buffer q @ buf\<rparr>]\<rparr>;
                     s4 = (if memchr buf newline \<noteq> None then write_logfile e i False s3 else s3);
                     s5 = (if int (avail (clients s4 ! i)) \<ge> wbuf_size e
                           then write_logfile e i True s4 else s4)
                 in Inr s5)))"

text \<open>The timeout check of lines 235 to 238.\<close>

definition timeout_scan :: "env \<Rightarrow> int \<Rightarrow> state \<Rightarrow> state" where
  "timeout_scan e now s =
     fold (\<lambda>i s'. if avail (clients s' ! i) \<noteq> 0 \<and> now - stamp (clients s' ! i) \<ge> wait_timeout e
                  then write_logfile e i True s' else s')
       [0 ..< length (clients s)] s"

text \<open>
  What the loop does, one event at a time: the \<open>fflush\<close> before \<open>poll\<close>, the timeout
  check, a received datagram, and the call of \<open>drop_memory_usage\<close> that ends a cycle.
\<close>

datatype event =
    Wait
  | Timeout_scan int
  | Datagram int sockaddr_in string bool bool
  | Reclaim

fun step :: "env \<Rightarrow> event \<Rightarrow> state \<Rightarrow> (int \<times> state) + state" where
  "step e Wait s = Inr (s\<lparr>trace := trace s @ [Fflush (log_fp s)]\<rparr>)"
| "step e (Timeout_scan now) s = Inr (timeout_scan e now s)"
| "step e (Datagram now a buf reg_ok buf_ok) s = recv_datagram e now a buf reg_ok buf_ok s"
| "step e Reclaim s = Inr (drop_memory_usage s)"

fun run :: "env \<Rightarrow> event list \<Rightarrow> state \<Rightarrow> (int \<times> state) + state" where
  "run e [] s = Inr s"
| "run e (ev # evs) s = (case step e ev s of Inl x \<Rightarrow> Inl x | Inr s' \<Rightarrow> run e evs s')"

text \<open>
  One turn of the outer loop of \<open>do_main\<close>: \<open>now\<close> is the second read after \<open>poll\<close>,
  \<open>dgrams\<close> the datagrams received while \<open>time(NULL)\<close> still returns \<open>now\<close>, each
  with its address, its bytes and the outcome of the two \<open>realloc\<close> calls.
  \<open>cycle_body\<close> is the turn up to, and without, the call of \<open>drop_memory_usage\<close>
  that ends it.
\<close>

definition cycle_body :: "int \<Rightarrow> (sockaddr_in \<times> string \<times> bool \<times> bool) list \<Rightarrow> event list" where
  "cycle_body now dgrams =
     [Wait, Timeout_scan now] @
     map (\<lambda>(a, buf, reg_ok, buf_ok). Datagram now a buf reg_ok buf_ok) dgrams"

definition cycle :: "int \<Rightarrow> (sockaddr_in \<times> string \<times> bool \<times> bool) list \<Rightarrow> event list" where
  "cycle now dgrams = cycle_body now dgrams @ [Reclaim]"

definition do_main :: "env \<Rightarrow> (int \<times> (sockaddr_in \<times> string \<times> bool \<times> bool) list) list \<Rightarrow> state
    \<Rightarrow> (int \<times> state) + state" where
  "do_main e cycles s = run e (concat (map (\<lambda>(now, dgrams). cycle now dgrams) cycles)) s"

text \<open>
  A datagram of a given sender, as the time it is received at, its bytes and the outcome
  of the \<open>realloc\<close> in \<open>find_client\<close>, with the \<open>realloc\<close> of the buffer
  succeeding: its bytes, and the event it is.
\<close>

definition chunk :: "int \<times> string \<times> bool \<Rightarrow> string" where
  "chunk d = (case d of (now, buf, reg_ok) \<Rightarrow> buf)"

definition arrival :: "sockaddr_in \<Rightarrow> int \<times> string \<times> bool \<Rightarrow> event" where
  "arrival a d = (case d of (now, buf, reg_ok) \<Rightarrow> Datagram now a buf reg_ok True)"

text \<open>The state in which a run ends, whether the process has exited or not.\<close>

definition final :: "(int \<times> state) + state \<Rightarrow> state" where
  "final r = (case r of Inl (status, s) \<Rightarrow> s | Inr s \<Rightarrow> s)"

section \<open>do_init\<close>

text \<open>The initial values of the globals and statics.\<close>

definition start :: state where
  "start = \<lparr>clients = [], try_drop_memory_usage = False, log_fp = None,
            last_tm = \<lparr>tm_sec = 0, tm_min = 0, tm_hour = 0, tm_mday = 1, tm_mon = 0, tm_year = 70\<rparr>,
            last_time = 0, stamp_text = [], trace = []\<rparr>"

text \<open>
  The end of \<open>do_init\<close>, lines 385 to 393: the first log file is opened, and the
  process exits with status 1 when that fails.
\<close>

definition do_init :: "env \<Rightarrow> int \<Rightarrow> (int \<times> state) + state" where
  "do_init e now =
     (let t = (case localtime e now of None \<Rightarrow> last_tm start | Some t' \<Rightarrow> t');
          s = switch_logfile e t start
      in if log_fp s = None then Inl (1, s) else Inr s)"

section \<open>Predicates and inputs used in the statements\<close>

text \<open>The registry is within its limit and holds no identity twice.\<close>

definition registry_ok :: "env \<Rightarrow> state \<Rightarrow> bool" where
  "registry_ok e s \<longleftrightarrow>
     int (length (clients s)) \<le> max_clients e \<and> distinct (map addr (clients s))"

text \<open>
  Every session holds the prefix that \<open>find_client\<close> stores for its address, and no
  line terminator is pending in any buffer.
\<close>

definition sessions_ok :: "state \<Rightarrow> bool" where
  "sessions_ok s \<longleftrightarrow>
     (\<forall>c \<in> set (clients s). addr_str c = mk_addr_str (addr c) \<and> newline \<notin> set (buffer c))"

text \<open>A log stream is open.\<close>

definition stream_open :: "state \<Rightarrow> bool" where
  "stream_open s \<longleftrightarrow> log_fp s \<noteq> None"

text \<open>
  The stream that \<open>log_fp\<close> names once the calls of a trace have been made, when it
  named \<open>fp\<close> before them: the file of the last \<open>fopen\<close> that succeeded, if there is
  one (lines 55 to 62).
\<close>

fun stream_after :: "string option \<Rightarrow> io list \<Rightarrow> string option" where
  "stream_after fp [] = fp"
| "stream_after fp (Fopen name ok # tr) = stream_after (if ok then Some name else fp) tr"
| "stream_after fp (x # tr) = stream_after fp tr"

text \<open>
  The date marker \<open>last_tm\<close> and the two statics of \<open>write_logfile\<close>. No other
  function assigns them (lines 85, 96 and 99), so at any moment of a run they hold what
  the rebuilds of the stamp made so far have left: when these were made for the seconds
  \<open>ns\<close>, in this order, the values they have in \<open>fold (refresh_stamp e) ns start\<close>.
\<close>

definition statics :: "state \<Rightarrow> tm \<times> int \<times> string" where
  "statics s = (last_tm s, last_time s, stamp_text s)"

text \<open>
  A concrete setting: the smallest limits \<open>do_init\<close> accepts, a file system on which
  every open succeeds, and a \<open>localtime\<close> that knows the two minutes around midnight
  UTC of 1 February 2024 and fails elsewhere.
\<close>

definition utc :: "int \<Rightarrow> tm option" where
  "utc t =
     (if 1706745540 \<le> t \<and> t < 1706745600
      then Some \<lparr>tm_sec = t - 1706745540, tm_min = 59, tm_hour = 23, tm_mday = 31,
                  tm_mon = 0, tm_year = 124\<rparr>
      else if 1706745600 \<le> t \<and> t < 1706745660
      then Some \<lparr>tm_sec = t - 1706745600, tm_min = 0, tm_hour = 0, tm_mday = 1,
                  tm_mon = 1, tm_year = 124\<rparr>
      else None)"

definition env0 :: env where
  "env0 = \<lparr>max_clients = 10, wbuf_size = 1024, wait_timeout = 10, localtime = utc,
            fopen = (\<lambda>name. True)\<rparr>"

text \<open>The sender \<open>10.0.0.n:6666\<close>, and a text with its line terminator.\<close>

definition peer :: "32 word \<Rightarrow> sockaddr_in" where
  "peer n = \<lparr>sin_addr = 0x0A000000 + n, sin_port = 6666\<rparr>"

definition line :: "string \<Rightarrow> string" where
  "line x = x @ [newline]"

text \<open>The state \<open>do_init\<close> leaves at 23:59:00 on 31 January 2024.\<close>

definition s_init :: state where
  "s_init = start\<lparr>log_fp := Some ''2024-01-31.log'', trace := [Fopen ''2024-01-31.log'' True]\<rparr>"

text \<open>The same state once \<open>10.0.0.1\<close> has sent the two bytes \<open>ab\<close> at 23:59:00.\<close>

definition s_ab :: state where
  "s_ab = s_init\<lparr>clients := [\<lparr>addr = peer 1, buffer = ''ab'', addr_str = ''10.0.0.1:6666 '',
                                  stamp = 1706745540\<rparr>]\<rparr>"

text \<open>
  The state after the first cycle of the loop, in which \<open>10.0.0.1\<close> has sent the line
  \<open>up\<close> at 23:59:00: the first record has made \<open>write_logfile\<close> open the day's file
  again, and the reclamation at the end of the cycle has removed the session.
\<close>

definition s_day :: state where
  "s_day = \<lparr>clients = [], try_drop_memory_usage = False,
             log_fp = Some ''2024-01-31.log'',
             last_tm = \<lparr>tm_sec = 0, tm_min = 59, tm_hour = 23, tm_mday = 31, tm_mon = 0, tm_year = 124\<rparr>,
             last_time = 1706745540,
             stamp_text = ''2024-01-31 23:59:00 '',
             trace = [Fopen ''2024-01-31.log'' True, Fflush (Some ''2024-01-31.log''),
                      Fopen ''2024-01-31.log'' True, Fclose ''2024-01-31.log'',
                      Fprintf (Some ''2024-01-31.log'') ''2024-01-31 23:59:00 10.0.0.1:6666 '',
                      Fwrite (Some ''2024-01-31.log'') (line ''up'')]\<rparr>"

text \<open>
  A full registry of idle sessions: in a second cycle, within the same second, ten
  senders have each sent the line \<open>x\<close>. Every line is written, every buffer is empty,
  no file was switched, so \<open>try_drop_memory_usage\<close> is not set and the call of
  \<open>drop_memory_usage\<close> at the end of the cycle has removed nothing.
\<close>

definition ten :: "32 word list" where
  "ten = [1, 2, 3, 4, 5, 6, 7, 8, 9, 10]"

definition idle :: "32 word \<Rightarrow> client" where
  "idle n = \<lparr>addr = peer n, buffer = [], addr_str = mk_addr_str (peer n), stamp = 1706745540\<rparr>"

definition s_full :: state where
  "s_full = s_day\<lparr>clients := map idle ten,
      trace := trace s_day @ Fflush (Some ''2024-01-31.log'') #
        concat (map (\<lambda>n. [Fprintf (Some ''2024-01-31.log'') (''2024-01-31 23:59:00 '' @ mk_addr_str (peer n)),
                             Fwrite (Some ''2024-01-31.log'') (line ''x'')]) ten)\<rparr>"

text \<open>That first cycle just before its reclamation: the session is idle, the hint is set.\<close>

definition s_pre :: state where
  "s_pre = s_day\<lparr>clients := [\<lparr>addr = peer 1, buffer = [], addr_str = ''10.0.0.1:6666 '',
                                   stamp = 1706745540\<rparr>],
                  try_drop_memory_usage := True\<rparr>"

text \<open>
  The state after a second cycle, one second later, in which \<open>10.0.0.1\<close> has sent the
  line \<open>ok\<close>.
\<close>

definition s_idle :: state where
  "s_idle = s_day\<lparr>clients := [\<lparr>addr = peer 1, buffer = [], addr_str = ''10.0.0.1:6666 '',
                                    stamp = 1706745541\<rparr>],
                   last_time := 1706745541, stamp_text := ''2024-01-31 23:59:01 '',
                   trace := trace s_day @ [Fflush (Some ''2024-01-31.log''),
                      Fprintf (Some ''2024-01-31.log'') ''2024-01-31 23:59:01 10.0.0.1:6666 '',
                      Fwrite (Some ''2024-01-31.log'') (line ''ok'')]\<rparr>"

text \<open>
  A directory in which the file of 1 February cannot be created, and the state in which
  \<open>write_logfile\<close> is called for the first record of that day: the session of
  \<open>10.0.0.1\<close> holds the line \<open>late\<close>, received at 00:00:01, while the marker and the
  open stream are those of 31 January.
\<close>

definition env_ro :: env where
  "env_ro = env0\<lparr>fopen := (\<lambda>name. name \<noteq> ''2024-02-01.log'')\<rparr>"

definition jan31 :: tm where
  "jan31 = \<lparr>tm_sec = 59, tm_min = 59, tm_hour = 23, tm_mday = 31, tm_mon = 0, tm_year = 124\<rparr>"


definition s_jan :: state where
  "s_jan = \<lparr>clients = [\<lparr>addr = peer 1, buffer = line ''late'', addr_str = ''10.0.0.1:6666 '',
                          stamp = 1706745601\<rparr>],
             try_drop_memory_usage = False,
             log_fp = Some ''2024-01-31.log'',
             last_tm = jan31,
             last_time = 1706745599,
             stamp_text = ''2024-01-31 23:59:59 '',
             trace = []\<rparr>"

text \<open>The state before the datagram with that line arrives: the registry is empty.\<close>

definition s_eve :: state where
  "s_eve = s_jan\<lparr>clients := []\<rparr>"

text \<open>
  The state after the first cycle with one session that holds 1023 bytes and no line
  terminator, one byte short of the limit of \<open>env0\<close>.
\<close>

definition s_big :: state where
  "s_big = s_day\<lparr>clients := [\<lparr>addr = peer 1, buffer = replicate 1023 CHR ''a'',
                                   addr_str = ''10.0.0.1:6666 '', stamp = 1706745540\<rparr>]\<rparr>"

text \<open>
  The state in which \<open>write_logfile\<close> is called when, after the first cycle and still
  at 23:59:00, \<open>10.0.0.1\<close> sends the line \<open>hi\<close> followed by the bytes \<open>yo\<close>: the stamp
  of that second is the cached one.
\<close>

definition s_hit :: state where
  "s_hit = s_day\<lparr>clients := [\<lparr>addr = peer 1, buffer = line ''hi'' @ ''yo'',
                                   addr_str = ''10.0.0.1:6666 '', stamp = 1706745540\<rparr>]\<rparr>"

text \<open>
  Three datagrams for the session of \<open>s_ab\<close>, which holds \<open>ab\<close>: together with it
  they spell the lines \<open>abc\<close>, \<open>def\<close> and \<open>g\<close>.
\<close>

definition three_chunks :: "(int \<times> string \<times> bool) list" where
  "three_chunks = [(1706745540, line ''c'' @ ''d'', True), (1706745541, ''e'', True),
                   (1706745541, line ''f'' @ line ''g'', False)]"






section \<open>Properties of the line loop and of the compaction loop\<close>

lemma memchr_None_iff: "memchr b c = None \<longleftrightarrow> c \<notin> set b"
  by (induction b) auto

lemma memchr_Some_nth: "memchr b c = Some k \<Longrightarrow> b ! k = c \<and> c \<notin> set (take k b)"
  by (induction b arbitrary: k) (auto split: if_splits)

lemma memchr_append: "memchr b c = Some k \<Longrightarrow> memchr (b @ y) c = Some k"
  by (induction b arbitrary: k) (auto split: if_splits)

lemma memchr_first: "c \<notin> set xs \<Longrightarrow> memchr (xs @ c # ys) c = Some (length xs)"
  by (induction xs) auto

lemma write_lines_eq:
  "write_lines fp pre b tr =
     (remainder b, tr @ concat (map (\<lambda>l. [Fprintf fp pre, Fwrite fp l]) (complete_lines b)))"
proof (induction fp pre b tr rule: write_lines.induct)
  case (1 fp pre b tr)
  show ?case
  proof (cases "memchr b newline")
    case None
    then show ?thesis
      by (simp add: write_lines.simps [of fp pre b] remainder.simps [of b] complete_lines.simps [of b])
  next
    case (Some k)
    then show ?thesis
      using "1.IH" [OF Some]
      by (simp add: write_lines.simps [of fp pre b] remainder.simps [of b] complete_lines.simps [of b])
  qed
qed

lemma concat_complete_lines: "concat (complete_lines b) @ remainder b = b"
proof (induction b rule: complete_lines.induct)
  case (1 b)
  show ?case
  proof (cases "memchr b newline")
    case None
    then show ?thesis by (simp add: remainder.simps [of b] complete_lines.simps [of b])
  next
    case (Some k)
    then show ?thesis
      using "1.IH" [OF Some]
      by (simp add: remainder.simps [of b] complete_lines.simps [of b])
  qed
qed

lemma remainder_no_newline: "newline \<notin> set (remainder b)"
proof (induction b rule: remainder.induct)
  case (1 b)
  show ?case
  proof (cases "memchr b newline")
    case None
    then have "newline \<notin> set b" by (simp add: memchr_None_iff)
    with None show ?thesis by (simp add: remainder.simps [of b])
  next
    case (Some k)
    then show ?thesis
      using "1.IH" [OF Some] by (simp add: remainder.simps [of b])
  qed
qed

lemma count_take_memchr:
  "memchr b c = Some k \<Longrightarrow> count_list (take (k + 1) b) c = 1"
  by (induction b arbitrary: k) (auto split: if_splits)

lemma last_take_memchr:
  "memchr b c = Some k \<Longrightarrow> last (take (k + 1) b) = c"
  by (induction b arbitrary: k) (auto split: if_splits simp: take_Suc_conv_app_nth)

lemma length_complete_lines: "length (complete_lines b) = count_list b newline"
proof (induction b rule: complete_lines.induct)
  case (1 b)
  show ?case
  proof (cases "memchr b newline")
    case None
    then have "newline \<notin> set b" by (simp add: memchr_None_iff)
    with None show ?thesis by (simp add: complete_lines.simps [of b])
  next
    case (Some k)
    have "count_list b newline = count_list (take (k + 1) b @ drop (k + 1) b) newline"
      by simp
    also have "\<dots> = 1 + count_list (drop (k + 1) b) newline"
      unfolding count_list_append using count_take_memchr [OF Some] by simp
    finally show ?thesis
      using "1.IH" [OF Some] Some by (simp add: complete_lines.simps [of b])
  qed
qed

lemma complete_lines_shape:
  "l \<in> set (complete_lines b) \<Longrightarrow> l \<noteq> [] \<and> last l = newline \<and> count_list l newline = 1"
proof (induction b rule: complete_lines.induct)
  case (1 b)
  show ?case
  proof (cases "memchr b newline")
    case None
    with "1.prems" show ?thesis by (simp add: complete_lines.simps [of b])
  next
    case (Some k)
    from "1.prems" Some have
      "l = take (k + 1) b \<or> l \<in> set (complete_lines (drop (k + 1) b))"
      by (simp add: complete_lines.simps [of b])
    then show ?thesis
    proof
      assume l: "l = take (k + 1) b"
      have "k < length b" using Some by (rule memchr_Some_less)
      then have "l \<noteq> []" using l by auto
      then show ?thesis
        using l count_take_memchr [OF Some] last_take_memchr [OF Some] by simp
    next
      assume "l \<in> set (complete_lines (drop (k + 1) b))"
      then show ?thesis using "1.IH" [OF Some] by simp
    qed
  qed
qed

lemma remainder_id: "newline \<notin> set b \<Longrightarrow> remainder b = b"
proof -
  assume "newline \<notin> set b"
  then have "memchr b newline = None" by (simp add: memchr_None_iff)
  then show ?thesis by (simp add: remainder.simps [of b])
qed

lemma complete_lines_none: "newline \<notin> set b \<Longrightarrow> complete_lines b = []"
proof -
  assume "newline \<notin> set b"
  then have "memchr b newline = None" by (simp add: memchr_None_iff)
  then show ?thesis by (simp add: complete_lines.simps [of b])
qed

lemma remainder_append: "remainder (x @ y) = remainder (remainder x @ y)"
proof (induction x rule: remainder.induct)
  case (1 b)
  show ?case
  proof (cases "memchr b newline")
    case None
    then show ?thesis by (simp add: remainder.simps [of b])
  next
    case (Some k)
    have k: "k < length b" using Some by (rule memchr_Some_less)
    have "remainder (b @ y) = remainder (drop (k + 1) (b @ y))"
      using memchr_append [OF Some, of y] by (simp add: remainder.simps [of "b @ y"])
    also have "\<dots> = remainder (drop (k + 1) b @ y)" using k by simp
    also have "\<dots> = remainder (remainder (drop (k + 1) b) @ y)" using "1.IH" [OF Some] .
    finally show ?thesis using Some by (simp add: remainder.simps [of b])
  qed
qed

lemma complete_lines_append:
  "complete_lines (x @ y) = complete_lines x @ complete_lines (remainder x @ y)"
proof (induction x rule: complete_lines.induct)
  case (1 b)
  show ?case
  proof (cases "memchr b newline")
    case None
    then show ?thesis by (simp add: remainder.simps [of b] complete_lines.simps [of b])
  next
    case (Some k)
    have k: "k < length b" using Some by (rule memchr_Some_less)
    have "complete_lines (b @ y) = take (k + 1) (b @ y) # complete_lines (drop (k + 1) (b @ y))"
      using memchr_append [OF Some, of y] by (simp add: complete_lines.simps [of "b @ y"])
    also have "\<dots> = take (k + 1) b # complete_lines (drop (k + 1) b @ y)" using k by simp
    finally show ?thesis
      using Some "1.IH" [OF Some]
      by (simp add: remainder.simps [of b] complete_lines.simps [of b])
  qed
qed

lemma drop_loop_eq: "drop_loop i cs = take i cs @ filter (\<lambda>c. avail c \<noteq> 0) (drop i cs)"
proof (induction i cs rule: drop_loop.induct)
  case (1 i cs)
  show ?case
  proof (cases "i < length cs")
    case False
    then show ?thesis by (simp add: drop_loop.simps [of i cs])
  next
    case True
    note lt = this
    have d: "drop i cs = cs ! i # drop (Suc i) cs"
      using lt by (simp add: Cons_nth_drop_Suc)
    show ?thesis
    proof (cases "avail (cs ! i) \<noteq> 0")
      case True
      have "drop_loop i cs = drop_loop (i + 1) cs"
        using lt True by (simp add: drop_loop.simps [of i cs])
      also have "\<dots> = take (i + 1) cs @ filter (\<lambda>c. avail c \<noteq> 0) (drop (i + 1) cs)"
        using "1.IH"(1) [OF lt True] .
      finally show ?thesis using True d lt by (simp add: take_Suc_conv_app_nth)
    next
      case False
      have "drop_loop i cs = drop_loop i (take i cs @ drop (i + 1) cs)"
        using lt False by (simp add: drop_loop.simps [of i cs])
      also have "\<dots> = take i (take i cs @ drop (i + 1) cs) @
          filter (\<lambda>c. avail c \<noteq> 0) (drop i (take i cs @ drop (i + 1) cs))"
        using "1.IH"(2) [OF lt False] .
      finally show ?thesis using False d lt by (simp add: min_def)
    qed
  qed
qed

section \<open>What the operations do to the registry\<close>

lemma clients_switch_logfile [simp]: "clients (switch_logfile e t s) = clients s"
  by (simp add: switch_logfile_def Let_def split: option.splits)

lemma clients_refresh_stamp [simp]: "clients (refresh_stamp e n s) = clients s"
  by (simp add: refresh_stamp_def Let_def)

lemma clients_write_logfile:
  "clients (write_logfile e i forced s) =
     (clients s)[i := (clients s ! i)\<lparr>buffer := (if forced then [] else remainder (buffer (clients s ! i)))\<rparr>]"
proof (cases "i < length (clients s)")
  case True
  then show ?thesis
    by (auto simp: write_logfile_def Let_def write_lines_eq)
next
  case False
  then show ?thesis by (simp add: write_logfile_def list_update_beyond)
qed

lemma length_clients_write_logfile [simp]:
  "length (clients (write_logfile e i forced s)) = length (clients s)"
  by (simp add: clients_write_logfile)

lemma addrs_write_logfile [simp]:
  "map addr (clients (write_logfile e i forced s)) = map addr (clients s)"
  by (simp add: clients_write_logfile map_update)
     (metis (no_types, lifting) list_update_beyond list_update_id map_update not_le_imp_less nth_map)

lemma clients_drop_memory_usage:
  "clients (drop_memory_usage s) =
     (if try_drop_memory_usage s then filter (\<lambda>c. avail c \<noteq> 0) (clients s) else clients s)"
  by (simp add: drop_memory_usage_def drop_loop_eq)

section \<open>Reclamation is idempotent\<close>

text \<open>
  Claim C9. Calling \<open>drop_memory_usage\<close> twice in a row leaves the whole state, and so
  the registry and every buffer, as the first call left it. The second call returns at
  once because the first one cleared \<open>try_drop_memory_usage\<close>; and a second pass that
  is made to run by raising the flag again finds nothing to remove after a first pass
  that ran.
\<close>

theorem drop_memory_usage_idempotent:
  "drop_memory_usage (drop_memory_usage s) = drop_memory_usage s \<and>
   clients (drop_memory_usage
      ((drop_memory_usage (s\<lparr>try_drop_memory_usage := True\<rparr>))\<lparr>try_drop_memory_usage := True\<rparr>))
     = clients (drop_memory_usage (s\<lparr>try_drop_memory_usage := True\<rparr>))"
  by (simp add: drop_memory_usage_def drop_loop_eq)

section \<open>find_client and the invariants of the registry\<close>

lemma scan_None_iff: "scan cs a i = None \<longleftrightarrow> a \<notin> addr ` set cs"
  by (induction cs arbitrary: i) auto

lemma scan_Some: "scan cs a i = Some k \<Longrightarrow> i \<le> k \<and> k - i < length cs \<and> addr (cs ! (k - i)) = a"
proof (induction cs arbitrary: i)
  case Nil
  then show ?case by simp
next
  case (Cons c cs)
  show ?case
  proof (cases "addr c = a")
    case True
    with Cons.prems show ?thesis by simp
  next
    case False
    with Cons.prems have "scan cs a (i + 1) = Some k" by simp
    from Cons.IH [OF this] have "i + 1 \<le> k" "k - (i + 1) < length cs" "addr (cs ! (k - (i + 1))) = a"
      by simp_all
    moreover from \<open>i + 1 \<le> k\<close> have "k - i = Suc (k - (i + 1))" by simp
    ultimately show ?thesis by simp
  qed
qed

lemma scan_Some0: "scan cs a 0 = Some k \<Longrightarrow> k < length cs \<and> addr (cs ! k) = a"
  using scan_Some [of cs a 0 k] by simp

lemma find_client_registered:
  "scan (clients s) a 0 = Some k \<Longrightarrow> find_client e a ok s = (Some k, s)"
  by (simp add: find_client_def)

lemma find_client_cases:
  assumes "find_client e a ok s = (r, s')"
  shows "(\<exists>k. scan (clients s) a 0 = Some k \<and> r = Some k \<and> s' = s) \<or>
         (scan (clients s) a 0 = None \<and> max_clients e \<le> int (length (clients s)) \<and> r = None \<and>
            s' = drop_memory_usage (s\<lparr>try_drop_memory_usage := True\<rparr>)) \<or>
         (scan (clients s) a 0 = None \<and> int (length (clients s)) < max_clients e \<and> r = None \<and> s' = s) \<or>
         (scan (clients s) a 0 = None \<and> int (length (clients s)) < max_clients e \<and>
            r = Some (length (clients s)) \<and>
            s' = s\<lparr>clients := clients s @ [\<lparr>addr = a, buffer = [], addr_str = mk_addr_str a, stamp = 0\<rparr>]\<rparr>)"
  using assms
  by (cases "scan (clients s) a 0") (auto simp: find_client_def Let_def split: if_splits)

lemma find_client_Some:
  assumes "find_client e a ok s = (Some k, s')"
  shows "k < length (clients s') \<and> addr (clients s' ! k) = a"
  using find_client_cases [OF assms] by (auto dest: scan_Some0)

lemma filter_bound: "int (length xs) \<le> m \<Longrightarrow> int (length (filter P xs)) \<le> m"
  using length_filter_le [of P xs] by linarith

lemma find_client_bound:
  assumes "find_client e a ok s = (r, s')" and "int (length (clients s)) \<le> max_clients e"
  shows "int (length (clients s')) \<le> max_clients e"
  using find_client_cases [OF assms(1)] assms(2)
  by (auto simp: clients_drop_memory_usage intro: filter_bound)

lemma find_client_distinct:
  assumes "find_client e a ok s = (r, s')" and "distinct (map addr (clients s))"
  shows "distinct (map addr (clients s'))"
  using find_client_cases [OF assms(1)] assms(2)
  by (auto simp: clients_drop_memory_usage scan_None_iff distinct_map_filter)

lemma addrs_fold_write:
  "map addr (clients (fold (\<lambda>i s'. if P i s' then write_logfile e i forced s' else s') xs s))
     = map addr (clients s)"
  by (induction xs arbitrary: s) simp_all

lemma same_addrs_length: "map addr xs = map addr ys \<Longrightarrow> length xs = length ys"
  by (metis length_map)

lemma final_simps [simp]: "final (Inl x) = snd x" "final (Inr s) = s"
  by (simp_all add: final_def split: prod.splits)

lemma addrs_timeout_scan: "map addr (clients (timeout_scan e now s)) = map addr (clients s)"
  unfolding timeout_scan_def by (rule addrs_fold_write)

lemma addrs_flush_all:
  "map addr (clients (snd (flush_all_and_abort e s))) = map addr (clients s)"
proof -
  have "flush_one e = (\<lambda>i s'. if avail (clients s' ! i) \<noteq> 0 then write_logfile e i True s' else s')"
    by (intro ext) (simp add: flush_one_def)
  then show ?thesis
    unfolding flush_all_and_abort_def by (simp add: Let_def addrs_fold_write)
qed

lemma addrs_list_update_stamp:
  "map addr (cs[i := (cs ! i)\<lparr>stamp := n\<rparr>]) = map addr cs"
  by (simp add: map_update) (metis list_update_beyond list_update_id map_update not_le_imp_less nth_map)

lemma addrs_list_update_buffer:
  "map addr (cs[i := (cs ! i)\<lparr>buffer := b\<rparr>]) = map addr cs"
  by (simp add: map_update) (metis list_update_beyond list_update_id map_update not_le_imp_less nth_map)

lemma addrs_recv_datagram:
  assumes "find_client e a reg_ok s = (r, s1)"
  shows "map addr (clients (final (recv_datagram e now a buf reg_ok buf_ok s))) = map addr (clients s1)"
proof (cases r)
  case None
  with assms show ?thesis by (simp add: recv_datagram_def)
next
  case (Some i)
  define s2 where "s2 = (if avail (clients s1 ! i) = 0
      then s1\<lparr>clients := (clients s1)[i := (clients s1 ! i)\<lparr>stamp := now\<rparr>]\<rparr> else s1)"
  have a2: "map addr (clients s2) = map addr (clients s1)"
    by (simp add: s2_def addrs_list_update_stamp)
  show ?thesis
  proof (cases buf_ok)
    case False
    with assms Some have "recv_datagram e now a buf reg_ok buf_ok s = Inl (flush_all_and_abort e s2)"
      by (simp add: recv_datagram_def s2_def Let_def)
    then show ?thesis using a2 by (simp add: addrs_flush_all)
  next
    case True
    define s3 where "s3 = s2\<lparr>clients := (clients s2)[i := (clients s2 ! i)\<lparr>buffer := buffer (clients s2 ! i) @ buf\<rparr>]\<rparr>"
    define s4 where "s4 = (if memchr buf newline \<noteq> None then write_logfile e i False s3 else s3)"
    define s5 where "s5 = (if int (avail (clients s4 ! i)) \<ge> wbuf_size e then write_logfile e i True s4 else s4)"
    from True assms Some have "recv_datagram e now a buf reg_ok buf_ok s = Inr s5"
      by (simp add: recv_datagram_def s2_def s3_def s4_def s5_def Let_def)
    moreover have "map addr (clients s5) = map addr (clients s2)"
      by (simp add: s5_def s4_def s3_def addrs_list_update_buffer)
    ultimately show ?thesis using a2 by simp
  qed
qed

lemma registry_ok_step: "registry_ok e s \<Longrightarrow> registry_ok e (final (step e ev s))"
proof (cases ev)
  case Wait
  assume "registry_ok e s" with Wait show ?thesis by (simp add: registry_ok_def)
next
  case (Timeout_scan now)
  assume "registry_ok e s"
  moreover have "length (clients (timeout_scan e now s)) = length (clients s)"
    by (rule same_addrs_length [OF addrs_timeout_scan])
  ultimately show ?thesis using Timeout_scan by (simp add: registry_ok_def addrs_timeout_scan)
next
  case (Datagram now a buf reg_ok buf_ok)
  assume i: "registry_ok e s"
  obtain r s1 where f: "find_client e a reg_ok s = (r, s1)" by (cases "find_client e a reg_ok s")
  have m: "map addr (clients (final (recv_datagram e now a buf reg_ok buf_ok s))) = map addr (clients s1)"
    by (rule addrs_recv_datagram [OF f])
  have "length (clients (final (recv_datagram e now a buf reg_ok buf_ok s))) = length (clients s1)"
    by (rule same_addrs_length [OF m])
  then show ?thesis
    using Datagram m i find_client_bound [OF f] find_client_distinct [OF f]
    by (simp add: registry_ok_def)
next
  case Reclaim
  assume "registry_ok e s"
  then show ?thesis using Reclaim
    by (auto simp: registry_ok_def clients_drop_memory_usage distinct_map_filter intro: filter_bound)
qed

lemma registry_ok_run: "registry_ok e s \<Longrightarrow> registry_ok e (final (run e evs s))"
proof (induction evs arbitrary: s)
  case Nil
  then show ?case by simp
next
  case (Cons ev evs)
  show ?case
  proof (cases "step e ev s")
    case (Inl x)
    with registry_ok_step [OF Cons.prems, of ev] show ?thesis by simp
  next
    case (Inr s')
    with registry_ok_step [OF Cons.prems, of ev] have "registry_ok e s'" by simp
    from Cons.IH [OF this] Inr show ?thesis by simp
  qed
qed

lemma do_init_clients: "do_init e t0 = Inr s0 \<Longrightarrow> clients s0 = []"
  by (auto simp: do_init_def Let_def start_def split: if_splits)

section \<open>Evaluating the formatting on numerals\<close>

lemma dec_numeral:
  "dec (numeral k) =
     (if numeral k < (10::nat) then [digit (numeral k)] else dec (numeral k div 10) @ [digit (numeral k)])"
  by (rule dec.simps)

lemma dec_0: "dec 0 = ''0''"
  by (simp add: dec.simps digit_def)

lemma dec_1: "dec 1 = ''1''" "dec (Suc 0) = ''1''"
  by (simp_all add: dec.simps digit_def)

lemmas fmt_eval = dec_numeral dec_0 dec_1 digit_def fmt_u_def snprintf_def ymd_def hms_def
  inet_ntoa_def octet_def mk_addr_str_def Let_def

lemma do_init_env0: "do_init env0 1706745540 = Inr s_init"
  by (simp add: do_init_def env0_def utc_def switch_logfile_def start_def s_init_def fmt_eval)

lemma registry_ok_init: "do_init e t0 = Inr s0 \<Longrightarrow> 0 \<le> max_clients e \<Longrightarrow> registry_ok e s0"
  by (simp add: registry_ok_def do_init_clients)

lemma find_client_grows:
  "num_clients s < num_clients (snd (find_client e a ok s)) \<Longrightarrow> int (num_clients s) < max_clients e"
proof -
  assume g: "num_clients s < num_clients (snd (find_client e a ok s))"
  obtain r s' where f: "find_client e a ok s = (r, s')" by (cases "find_client e a ok s")
  have "length (filter (\<lambda>c. avail c \<noteq> 0) (clients s)) \<le> length (clients s)"
    by (rule length_filter_le)
  then show ?thesis
    using find_client_cases [OF f] g f
    by (auto simp: num_clients_def clients_drop_memory_usage simp del: length_filter_le)
qed

section \<open>The registry never exceeds its limit\<close>

text \<open>
  Claim C7. From the state \<open>do_init\<close> leaves, after any sequence of waits, timeout
  scans, datagrams (whatever the outcome of their allocations) and reclamation passes,
  and also when the run ends in the fatal exit, the number of sessions is at most
  \<open>max_clients\<close>. And in any state at all, \<open>find_client\<close> makes the registry grow only
  when the count is below the limit.
\<close>

theorem registry_never_exceeds_max_clients:
  assumes "do_init e t0 = Inr s0" and "0 \<le> max_clients e"
  shows "int (num_clients (final (run e evs s0))) \<le> max_clients e \<and>
         (num_clients s < num_clients (snd (find_client e a ok s)) \<longrightarrow>
            int (num_clients s) < max_clients e)"
  using registry_ok_run [OF registry_ok_init [OF assms], of evs] find_client_grows [of s e a ok]
  by (simp add: registry_ok_def num_clients_def)

lemma find_client_s_init:
  "find_client env0 (peer 1) True s_init =
     (Some 0, s_init\<lparr>clients := [\<lparr>addr = peer 1, buffer = [], addr_str = ''10.0.0.1:6666 '', stamp = 0\<rparr>]\<rparr>)"
  by (simp add: find_client_def s_init_def start_def env0_def peer_def fmt_eval)

theorem registry_never_exceeds_max_clients_witness:
  "do_init env0 1706745540 = Inr s_init \<and> 0 \<le> max_clients env0 \<and>
   int (num_clients (final (run env0 (cycle 1706745540 [(peer 1, line ''up'', True, True)]) s_init)))
     \<le> max_clients env0 \<and>
   num_clients s_init < num_clients (snd (find_client env0 (peer 1) True s_init)) \<and>
   int (num_clients s_init) < max_clients env0"
proof -
  have m: "0 \<le> max_clients env0" by (simp add: env0_def)
  have g: "num_clients s_init < num_clients (snd (find_client env0 (peer 1) True s_init))"
    by (simp add: find_client_s_init num_clients_def) (simp add: s_init_def start_def)
  from registry_never_exceeds_max_clients [OF do_init_env0 m,
      of "cycle 1706745540 [(peer 1, line ''up'', True, True)]" s_init "peer 1" True] g m
  show ?thesis by (simp add: do_init_env0)
qed

section \<open>One session per identity\<close>

text \<open>
  Claim C10. In every state reached from \<open>do_init\<close> the identities of the registry are
  pairwise distinct. For an identity that is registered, \<open>find_client\<close> returns its entry
  and leaves the state as it is; and whenever \<open>find_client\<close> returns an entry and has
  changed the state, the identity was in no entry and the change is the one new session
  at the end of the array.
\<close>

theorem one_session_per_identity:
  assumes "do_init e t0 = Inr s0" and "0 \<le> max_clients e" and "s = final (run e evs s0)"
  shows "distinct (map addr (clients s)) \<and>
         (a \<in> addr ` set (clients s) \<longrightarrow>
            (\<exists>k. find_client e a ok s = (Some k, s) \<and> k < num_clients s \<and> addr (clients s ! k) = a)) \<and>
         (\<forall>k s'. find_client e a ok s = (Some k, s') \<and> s' \<noteq> s \<longrightarrow>
            a \<notin> addr ` set (clients s) \<and>
            clients s' = clients s @ [\<lparr>addr = a, buffer = [], addr_str = mk_addr_str a, stamp = 0\<rparr>])"
proof (intro conjI allI impI)
  show "distinct (map addr (clients s))"
    using registry_ok_run [OF registry_ok_init [OF assms(1,2)], of evs] assms(3)
    by (simp add: registry_ok_def)
next
  assume "a \<in> addr ` set (clients s)"
  then obtain k where k: "scan (clients s) a 0 = Some k"
    using scan_None_iff [of "clients s" a 0] by (cases "scan (clients s) a 0") auto
  from scan_Some0 [OF k] find_client_registered [OF k, of e ok]
  show "\<exists>k. find_client e a ok s = (Some k, s) \<and> k < num_clients s \<and> addr (clients s ! k) = a"
    by (auto simp: num_clients_def)
next
  fix k s'
  assume "find_client e a ok s = (Some k, s') \<and> s' \<noteq> s"
  then have f: "find_client e a ok s = (Some k, s')" and n: "s' \<noteq> s" by simp_all
  from find_client_cases [OF f] n
  show "a \<notin> addr ` set (clients s)"
    by (auto simp: scan_None_iff)
  from find_client_cases [OF f] n
  show "clients s' = clients s @ [\<lparr>addr = a, buffer = [], addr_str = mk_addr_str a, stamp = 0\<rparr>]"
    by auto
qed

lemma recv_ab: "recv_datagram env0 1706745540 (peer 1) ''ab'' True True s_init = Inr s_ab"
  by (simp add: recv_datagram_def find_client_s_init avail_def newline_def)
     (simp add: s_init_def s_ab_def start_def env0_def avail_def)

lemma find_client_s_ab_1: "find_client env0 (peer 1) True s_ab = (Some 0, s_ab)"
  by (simp add: find_client_def s_ab_def)

lemma find_client_s_ab_2:
  "find_client env0 (peer 2) True s_ab =
     (Some 1, s_ab\<lparr>clients := clients s_ab @
        [\<lparr>addr = peer 2, buffer = [], addr_str = mk_addr_str (peer 2), stamp = 0\<rparr>]\<rparr>)"
  by (simp add: find_client_def s_ab_def s_init_def start_def env0_def peer_def)

theorem one_session_per_identity_witness:
  "do_init env0 1706745540 = Inr s_init \<and> 0 \<le> max_clients env0 \<and>
   s_ab = final (run env0 [Datagram 1706745540 (peer 1) ''ab'' True True] s_init) \<and>
   distinct (map addr (clients s_ab)) \<and>
   peer 1 \<in> addr ` set (clients s_ab) \<and>
   (\<exists>k. find_client env0 (peer 1) True s_ab = (Some k, s_ab) \<and> k < num_clients s_ab \<and>
        addr (clients s_ab ! k) = peer 1) \<and>
   find_client env0 (peer 2) True s_ab =
     (Some 1, s_ab\<lparr>clients := clients s_ab @
        [\<lparr>addr = peer 2, buffer = [], addr_str = mk_addr_str (peer 2), stamp = 0\<rparr>]\<rparr>) \<and>
   peer 2 \<notin> addr ` set (clients s_ab)"
proof -
  have m: "0 \<le> max_clients env0" by (simp add: env0_def)
  have r: "s_ab = final (run env0 [Datagram 1706745540 (peer 1) ''ab'' True True] s_init)"
    by (simp add: recv_ab)
  have p: "peer 1 \<in> addr ` set (clients s_ab)" by (simp add: s_ab_def)
  have n: "s_ab\<lparr>clients := clients s_ab @
        [\<lparr>addr = peer 2, buffer = [], addr_str = mk_addr_str (peer 2), stamp = 0\<rparr>]\<rparr> \<noteq> s_ab"
    by (simp add: s_ab_def s_init_def start_def)
  note t1 = one_session_per_identity [OF do_init_env0 m r, of "peer 1" True]
  note t2 = one_session_per_identity [OF do_init_env0 m r, of "peer 2" True]
  from t1 p have a: "distinct (map addr (clients s_ab))"
    and b: "\<exists>k. find_client env0 (peer 1) True s_ab = (Some k, s_ab) \<and> k < num_clients s_ab \<and>
        addr (clients s_ab ! k) = peer 1"
    by blast+
  from t2 find_client_s_ab_2 n have c: "peer 2 \<notin> addr ` set (clients s_ab)"
    by blast
  from a b c p r m do_init_env0 find_client_s_ab_2 show ?thesis by blast
qed

section \<open>What one call of write_logfile does\<close>

lemma fwrites_append [simp]: "fwrites (xs @ ys) = fwrites xs @ fwrites ys"
  by (induction xs rule: fwrites.induct) simp_all

lemma opens_append [simp]: "opens (xs @ ys) = opens xs @ opens ys"
  by (induction xs rule: opens.induct) simp_all

lemma fwrites_line_events [simp]: "fwrites (line_events fp pre ls) = ls"
  by (induction ls) (simp_all add: line_events_def)

lemma opens_line_events [simp]: "opens (line_events fp pre ls) = []"
  by (induction ls) (simp_all add: line_events_def)

lemma fwrites_partial_events [simp]:
  "fwrites (partial_events fp pre forced r) = (if forced \<and> r \<noteq> [] then [r] else [])"
  by (simp add: partial_events_def)

lemma opens_partial_events [simp]: "opens (partial_events fp pre forced r) = []"
  by (simp add: partial_events_def)

lemma write_logfile_eq:
  assumes "i < length (clients s)"
    and "c = clients s ! i"
    and "sr = (if last_time s \<noteq> stamp c then refresh_stamp e (stamp c) s else s)"
    and "pre = stamp_text sr @ addr_str c"
  shows "write_logfile e i forced s =
     sr\<lparr>clients := (clients s)[i := c\<lparr>buffer := (if forced then [] else remainder (buffer c))\<rparr>],
        trace := trace sr @ line_events (log_fp sr) pre (complete_lines (buffer c)) @
                 partial_events (log_fp sr) pre forced (remainder (buffer c))\<rparr>"
  using assms
  by (auto simp: write_logfile_def Let_def write_lines_eq line_events_def partial_events_def)

lemma switch_logfile_ok:
  "log_fp s = Some old \<Longrightarrow> fopen e (snprintf 15 (ymd t @ ''.log'')) \<Longrightarrow>
   switch_logfile e t s =
     s\<lparr>log_fp := Some (snprintf 15 (ymd t @ ''.log'')),
       trace := trace s @ [Fopen (snprintf 15 (ymd t @ ''.log'')) True, Fclose old],
       try_drop_memory_usage := True\<rparr>"
  by (simp add: switch_logfile_def Let_def)


lemma refresh_stamp_same:
  assumes "t = (case localtime e n of None \<Rightarrow> last_tm s | Some t' \<Rightarrow> t')"
    and "same_date t (last_tm s)"
  shows "refresh_stamp e n s =
     s\<lparr>stamp_text := snprintf 23 (ymd t @ '' '' @ hms t @ '' ''), last_time := n\<rparr>"
  using assms by (simp add: refresh_stamp_def Let_def same_date_def)

lemma refresh_stamp_other:
  assumes "t = (case localtime e n of None \<Rightarrow> last_tm s | Some t' \<Rightarrow> t')"
    and "\<not> same_date t (last_tm s)"
  shows "refresh_stamp e n s =
     (switch_logfile e t (s\<lparr>stamp_text := snprintf 23 (ymd t @ '' '' @ hms t @ '' ''), last_tm := t\<rparr>))
       \<lparr>last_time := n\<rparr>"
  using assms by (auto simp: refresh_stamp_def Let_def same_date_def)

section \<open>What one datagram does, and evaluation in the concrete setting\<close>

lemma memchr_neq_None: "memchr b c \<noteq> None \<longleftrightarrow> c \<in> set b"
  by (simp add: memchr_None_iff)

lemma recv_datagram_eq:
  assumes "find_client e a reg_ok s = (Some i, sf)"
    and "c = clients sf ! i"
    and "sa = sf\<lparr>clients := (clients sf)[i := c\<lparr>stamp := (if buffer c = [] then now else stamp c),
                                                  buffer := buffer c @ buf\<rparr>]\<rparr>"
    and "sw = (if newline \<in> set buf then write_logfile e i False sa else sa)"
  shows "recv_datagram e now a buf reg_ok True s =
     Inr (if wbuf_size e \<le> int (length (buffer (clients sw ! i))) then write_logfile e i True sw else sw)"
proof -
  have i: "i < length (clients sf)" using find_client_Some [OF assms(1)] by simp
  have m: "(memchr buf newline \<noteq> None) = (newline \<in> set buf)"
    by (simp add: memchr_None_iff)
  have u: "(clients sf)[i := c\<lparr>stamp := now\<rparr>, i := c\<lparr>stamp := now, buffer := buffer c @ buf\<rparr>]
      = (clients sf)[i := c\<lparr>stamp := now, buffer := buffer c @ buf\<rparr>]"
    by simp
  show ?thesis
    unfolding recv_datagram_def assms(1) Let_def m avail_def
    using assms(2-4) i
    by (cases "buffer c = []") simp_all
qed

lemma s_init_sel:
  "clients s_init = []" "try_drop_memory_usage s_init = False"
  "log_fp s_init = Some ''2024-01-31.log''"
  "last_tm s_init = \<lparr>tm_sec = 0, tm_min = 0, tm_hour = 0, tm_mday = 1, tm_mon = 0, tm_year = 70\<rparr>"
  "last_time s_init = 0" "stamp_text s_init = []" "trace s_init = [Fopen ''2024-01-31.log'' True]"
  by (simp_all add: s_init_def start_def)

lemma env0_sel:
  "max_clients env0 = 10" "wbuf_size env0 = 1024" "wait_timeout env0 = 10"
  "localtime env0 = utc" "fopen env0 = (\<lambda>name. True)"
  by (simp_all add: env0_def)

lemma complete_lines_line: "newline \<notin> set x \<Longrightarrow> complete_lines (x @ newline # y) = (x @ [newline]) # complete_lines y"
  using memchr_first [of newline x y] by (simp add: complete_lines.simps [of "x @ newline # y"])

lemma remainder_line: "newline \<notin> set x \<Longrightarrow> remainder (x @ newline # y) = remainder y"
  using memchr_first [of newline x y] by (simp add: remainder.simps [of "x @ newline # y"])

lemma complete_lines_one: "newline \<notin> set x \<Longrightarrow> complete_lines (line x) = [line x]"
  using complete_lines_line [of x "[]"] by (simp add: line_def complete_lines_none)

lemma remainder_one: "newline \<notin> set x \<Longrightarrow> remainder (line x) = []"
  using remainder_line [of x "[]"] by (simp add: line_def remainder_id)

lemma newline_in_line: "newline \<in> set (line x)"
  by (simp add: line_def)

lemmas run_eval = do_main_def cycle_def cycle_body_def recv_datagram_def find_client_def timeout_scan_def
  flush_all_and_abort_def flush_one_def
  drop_memory_usage_def drop_loop.simps write_logfile_def write_lines.simps refresh_stamp_def
  switch_logfile_def avail_def newline_def line_def env0_sel utc_def peer_def
  fmt_eval

section \<open>Reclamation at the end of a cycle\<close>

lemma run_append:
  "run e (xs @ ys) s = (case run e xs s of Inl x \<Rightarrow> Inl x | Inr s' \<Rightarrow> run e ys s')"
  by (induction xs arbitrary: s) (simp_all split: sum.splits)

lemma do_main_append:
  "do_main e (xs @ ys) s = (case do_main e xs s of Inl x \<Rightarrow> Inl x | Inr s' \<Rightarrow> do_main e ys s')"
  by (simp add: do_main_def run_append split: sum.splits)

lemma before_first_reclaim:
  "run env0 (cycle_body 1706745540 [(peer 1, line ''up'', True, True)]) s_init = Inr s_pre"
  by (simp add: run_eval s_init_def start_def s_day_def s_pre_def)

lemma second_cycle:
  "do_main env0 [(1706745541, [(peer 1, line ''ok'', True, True)])] s_day = Inr s_idle"
  by (simp add: run_eval s_day_def s_idle_def)

text \<open>
  Claim C4. The claim says that the reclamation at the end of every cycle removes every
  session whose buffer is empty. The call is made at the end of every cycle, but
  \<open>drop_memory_usage\<close> returns at once unless \<open>try_drop_memory_usage\<close> is set. What
  holds: a cycle ends with \<open>drop_memory_usage\<close> applied to the state the datagrams left;
  when the hint is set there, the registry becomes its sessions with pending bytes and
  the hint is cleared; when it is not set, nothing changes, so an idle session keeps its
  slot. The hint is set by \<open>switch_logfile\<close> whenever a stream was open before.
\<close>

theorem reclaim_at_end_of_cycle:
  assumes "run e (cycle_body now dgrams) s = Inr s1"
  shows "do_main e [(now, dgrams)] s = Inr (drop_memory_usage s1) \<and>
         (try_drop_memory_usage s1 \<longrightarrow>
            clients (drop_memory_usage s1) = filter (\<lambda>c. buffer c \<noteq> []) (clients s1) \<and>
            \<not> try_drop_memory_usage (drop_memory_usage s1)) \<and>
         (\<not> try_drop_memory_usage s1 \<longrightarrow> drop_memory_usage s1 = s1) \<and>
         (log_fp s0 \<noteq> None \<longrightarrow> try_drop_memory_usage (switch_logfile e t s0))"
proof (intro conjI impI)
  have "run e (cycle now dgrams) s = Inr (drop_memory_usage s1)"
    using assms run_append [of e "cycle_body now dgrams" "[Reclaim]" s]
    by (simp add: cycle_def)
  then show "do_main e [(now, dgrams)] s = Inr (drop_memory_usage s1)"
    by (simp add: do_main_def)
next
  assume "try_drop_memory_usage s1"
  then show "clients (drop_memory_usage s1) = filter (\<lambda>c. buffer c \<noteq> []) (clients s1)"
    by (simp add: clients_drop_memory_usage avail_def)
next
  assume "try_drop_memory_usage s1"
  then show "\<not> try_drop_memory_usage (drop_memory_usage s1)"
    by (simp add: drop_memory_usage_def)
next
  assume "\<not> try_drop_memory_usage s1"
  then show "drop_memory_usage s1 = s1"
    by (simp add: drop_memory_usage_def)
next
  assume "log_fp s0 \<noteq> None"
  then show "try_drop_memory_usage (switch_logfile e t s0)"
    by (auto simp: switch_logfile_def Let_def)
qed

lemma drop_s_pre: "drop_memory_usage s_pre = s_day"
  by (simp add: drop_memory_usage_def drop_loop_eq avail_def s_pre_def s_day_def)

theorem reclaim_at_end_of_cycle_witness:
  "run env0 (cycle_body 1706745540 [(peer 1, line ''up'', True, True)]) s_init = Inr s_pre \<and>
   try_drop_memory_usage s_pre \<and> log_fp s_init \<noteq> None \<and>
   do_main env0 [(1706745540, [(peer 1, line ''up'', True, True)])] s_init = Inr s_day \<and>
   clients s_day = filter (\<lambda>c. buffer c \<noteq> []) (clients s_pre) \<and>
   \<not> try_drop_memory_usage s_day \<and> drop_memory_usage s_day = s_day \<and>
   try_drop_memory_usage (switch_logfile env0 (last_tm s_day) s_init)"
proof -
  have p: "try_drop_memory_usage s_pre" by (simp add: s_pre_def)
  have l: "log_fp s_init \<noteq> None" by (simp add: s_init_def)
  have n: "\<not> try_drop_memory_usage s_day" by (simp add: s_day_def)
  have d: "drop_memory_usage s_day = s_day" using n by (simp add: drop_memory_usage_def)
  from reclaim_at_end_of_cycle [OF before_first_reclaim, of s_init "last_tm s_day"] p l n d
  show ?thesis by (simp add: drop_s_pre before_first_reclaim)
qed

lemma first_cycle: "do_main env0 [(1706745540, [(peer 1, line ''up'', True, True)])] s_init = Inr s_day"
  using run_append [of env0 "cycle_body 1706745540 [(peer 1, line ''up'', True, True)]" "[Reclaim]" s_init]
  by (simp add: before_first_reclaim drop_s_pre do_main_def cycle_def)

text \<open>
  The claim as stated fails in the second cycle after start-up: the sender's line is
  complete and written, no file is switched, and its session stays in the registry with
  an empty buffer.
\<close>

theorem idle_session_survives_cycle:
  "do_main env0 [(1706745540, [(peer 1, line ''up'', True, True)]),
                 (1706745541, [(peer 1, line ''ok'', True, True)])] s_init = Inr s_idle \<and>
   clients s_idle = [\<lparr>addr = peer 1, buffer = [], addr_str = ''10.0.0.1:6666 '', stamp = 1706745541\<rparr>]"
proof -
  have "do_main env0 ([(1706745540, [(peer 1, line ''up'', True, True)])] @
                 [(1706745541, [(peer 1, line ''ok'', True, True)])]) s_init = Inr s_idle"
    unfolding do_main_append first_cycle by (simp add: second_cycle)
  then show ?thesis by (simp add: s_idle_def)
qed

section \<open>A rotation whose open fails\<close>

lemma log_fp_write_logfile:
  "i < length (clients s) \<Longrightarrow>
   log_fp (write_logfile e i forced s) =
     log_fp (if last_time s \<noteq> stamp (clients s ! i) then refresh_stamp e (stamp (clients s ! i)) s else s)"
  by (simp add: write_logfile_eq [OF _ refl refl refl])


lemma last_time_write_logfile:
  "i < length (clients s) \<Longrightarrow> last_time (write_logfile e i forced s) = stamp (clients s ! i)"
  by (simp add: write_logfile_eq [OF _ refl refl refl] refresh_stamp_def Let_def)


lemma same_date_refl [simp]: "same_date t t"
  by (simp add: same_date_def)

lemma same_date_sym: "same_date t u \<Longrightarrow> same_date u t"
  by (simp add: same_date_def)








section \<open>What holds of every session in every state the loop reaches\<close>

lemma sessions_ok_update:
  assumes "sessions_ok s" and "i < length (clients s)" and "newline \<notin> set b"
    and "clients s' = (clients s)[i := (clients s ! i)\<lparr>buffer := b\<rparr>]"
  shows "sessions_ok s'"
proof -
  have "addr_str (clients s ! i) = mk_addr_str (addr (clients s ! i))"
    using assms(1,2) by (simp add: sessions_ok_def)
  then show ?thesis
    using assms by (auto simp: sessions_ok_def dest!: set_update_subset_insert [THEN subsetD])
qed

lemma sessions_ok_write_logfile: "sessions_ok s \<Longrightarrow> sessions_ok (write_logfile e i forced s)"
proof (cases "i < length (clients s)")
  case True
  assume ok: "sessions_ok s"
  have "newline \<notin> set (if forced then [] else remainder (buffer (clients s ! i)))"
    by (simp add: remainder_no_newline)
  from sessions_ok_update [OF ok True this clients_write_logfile]
  show ?thesis .
next
  case False
  assume "sessions_ok s"
  with False show ?thesis by (simp add: write_logfile_def)
qed

lemma sessions_ok_fold:
  "sessions_ok s \<Longrightarrow>
   sessions_ok (fold (\<lambda>i s'. if P i s' then write_logfile e i forced s' else s') xs s)"
  by (induction xs arbitrary: s) (simp_all add: sessions_ok_write_logfile)

lemma sessions_ok_timeout_scan: "sessions_ok s \<Longrightarrow> sessions_ok (timeout_scan e now s)"
  unfolding timeout_scan_def by (rule sessions_ok_fold)

lemma sessions_ok_flush_all: "sessions_ok s \<Longrightarrow> sessions_ok (snd (flush_all_and_abort e s))"
proof -
  assume ok: "sessions_ok s"
  have "flush_one e = (\<lambda>i s'. if avail (clients s' ! i) \<noteq> 0 then write_logfile e i True s' else s')"
    by (intro ext) (simp add: flush_one_def)
  then have "sessions_ok (fold (flush_one e) [0 ..< length (clients s)] s)"
    using sessions_ok_fold [OF ok] by simp
  then show ?thesis
    by (simp add: flush_all_and_abort_def Let_def sessions_ok_def)
qed

lemma sessions_ok_drop_memory_usage: "sessions_ok s \<Longrightarrow> sessions_ok (drop_memory_usage s)"
  by (simp add: sessions_ok_def clients_drop_memory_usage)

lemma sessions_ok_find_client:
  assumes "find_client e a ok s = (r, s')" and "sessions_ok s"
  shows "sessions_ok s'"
  using find_client_cases [OF assms(1)] assms(2) sessions_ok_drop_memory_usage [of "s\<lparr>try_drop_memory_usage := True\<rparr>"]
  by (auto simp: sessions_ok_def)

lemma sessions_ok_recv_datagram:
  assumes "sessions_ok s"
  shows "sessions_ok (final (recv_datagram e now a buf reg_ok buf_ok s))"
proof -
  obtain r sf where f: "find_client e a reg_ok s = (r, sf)" by (cases "find_client e a reg_ok s")
  have okf: "sessions_ok sf" by (rule sessions_ok_find_client [OF f assms])
  show ?thesis
  proof (cases r)
    case None
    with f okf show ?thesis by (simp add: recv_datagram_def)
  next
    case (Some i)
    have i: "i < length (clients sf)" using find_client_Some [of e a reg_ok s i sf] f Some by simp
    define c where "c = clients sf ! i"
    have cok: "addr_str c = mk_addr_str (addr c)" "newline \<notin> set (buffer c)"
      using okf i by (simp_all add: sessions_ok_def c_def)
    define s2 where "s2 = (if avail c = 0 then sf\<lparr>clients := (clients sf)[i := c\<lparr>stamp := now\<rparr>]\<rparr> else sf)"
    have ok2: "sessions_ok s2"
      using okf cok by (auto simp: s2_def sessions_ok_def dest!: set_update_subset_insert [THEN subsetD])
    show ?thesis
    proof (cases buf_ok)
      case False
      with f Some have "recv_datagram e now a buf reg_ok buf_ok s = Inl (flush_all_and_abort e s2)"
        by (simp add: recv_datagram_def s2_def c_def Let_def)
      then show ?thesis using sessions_ok_flush_all [OF ok2] by simp
    next
      case True
      define q where "q = clients s2 ! i"
      define s3 where "s3 = s2\<lparr>clients := (clients s2)[i := q\<lparr>buffer := buffer q @ buf\<rparr>]\<rparr>"
      define s4 where "s4 = (if memchr buf newline \<noteq> None then write_logfile e i False s3 else s3)"
      define s5 where "s5 = (if int (avail (clients s4 ! i)) \<ge> wbuf_size e then write_logfile e i True s4 else s4)"
      from True f Some have r: "recv_datagram e now a buf reg_ok buf_ok s = Inr s5"
        by (simp add: recv_datagram_def s2_def c_def q_def s3_def s4_def s5_def Let_def)
      have i2: "i < length (clients s2)" using i by (simp add: s2_def)
      have qb: "buffer q = buffer c" using i by (simp add: q_def s2_def c_def)
      have ok4: "sessions_ok s4"
      proof (cases "memchr buf newline \<noteq> None")
        case True
        have i3: "i < length (clients s3)" using i2 by (simp add: s3_def)
        have "clients (write_logfile e i False s3) =
            (clients s2)[i := q\<lparr>buffer := remainder (buffer q @ buf)\<rparr>]"
          using i2 by (simp add: clients_write_logfile s3_def)
        then have "clients s4 = (clients s2)[i := (clients s2 ! i)\<lparr>buffer := remainder (buffer q @ buf)\<rparr>]"
          using True by (simp add: s4_def q_def)
        from sessions_ok_update [OF ok2 i2 remainder_no_newline this]
        show ?thesis .
      next
        case False
        then have "newline \<notin> set buf" by (simp add: memchr_None_iff)
        then have "newline \<notin> set (buffer q @ buf)" using cok(2) qb by simp
        moreover have "clients s4 = (clients s2)[i := (clients s2 ! i)\<lparr>buffer := buffer q @ buf\<rparr>]"
          using False by (simp add: s4_def s3_def q_def)
        ultimately show ?thesis
          using sessions_ok_update [OF ok2 i2] by blast
      qed
      then have "sessions_ok s5" by (simp add: s5_def sessions_ok_write_logfile)
      then show ?thesis using r by simp
    qed
  qed
qed

lemma sessions_ok_step: "sessions_ok s \<Longrightarrow> sessions_ok (final (step e ev s))"
proof (cases ev)
  case Wait
  assume "sessions_ok s"
  with Wait show ?thesis by (simp add: sessions_ok_def)
next
  case (Timeout_scan now)
  assume "sessions_ok s"
  with Timeout_scan show ?thesis by (simp add: sessions_ok_timeout_scan)
next
  case (Datagram now a buf reg_ok buf_ok)
  assume "sessions_ok s"
  with Datagram show ?thesis by (simp add: sessions_ok_recv_datagram)
next
  case Reclaim
  assume "sessions_ok s"
  with Reclaim show ?thesis by (simp add: sessions_ok_drop_memory_usage)
qed

lemma sessions_ok_run: "sessions_ok s \<Longrightarrow> sessions_ok (final (run e evs s))"
proof (induction evs arbitrary: s)
  case Nil
  then show ?case by simp
next
  case (Cons ev evs)
  show ?case
  proof (cases "step e ev s")
    case (Inl x)
    with sessions_ok_step [OF Cons.prems, of e ev] show ?thesis by simp
  next
    case (Inr s')
    with sessions_ok_step [OF Cons.prems, of e ev] have "sessions_ok s'" by simp
    from Cons.IH [OF this] Inr show ?thesis by simp
  qed
qed

text \<open>
  In every state the loop reaches from \<open>do_init\<close>, every session holds the prefix of
  its address and no pending line terminator: what the statements on single calls
  assume of the session they are about.
\<close>

lemma sessions_ok_reachable:
  "do_init e t0 = Inr s0 \<Longrightarrow> sessions_ok (final (run e evs s0))"
  by (rule sessions_ok_run) (simp add: sessions_ok_def do_init_clients)

section \<open>The log stream is never null\<close>

lemma stream_open_switch_logfile: "stream_open s \<Longrightarrow> stream_open (switch_logfile e t s)"
  by (auto simp: switch_logfile_def Let_def stream_open_def)

lemma stream_open_refresh_stamp: "stream_open s \<Longrightarrow> stream_open (refresh_stamp e n s)"
proof -
  assume o: "stream_open s"
  have "stream_open (s\<lparr>stamp_text := x\<rparr>)" "stream_open (s\<lparr>stamp_text := x, last_tm := t\<rparr>)" for x t
    using o by (simp_all add: stream_open_def)
  then have "stream_open (switch_logfile e t (s\<lparr>stamp_text := x, last_tm := t\<rparr>))" for x t
    by (intro stream_open_switch_logfile)
  then show ?thesis
    using o by (simp add: refresh_stamp_def Let_def) (simp add: stream_open_def)
qed

lemma stream_open_write_logfile: "stream_open s \<Longrightarrow> stream_open (write_logfile e i forced s)"
proof (cases "i < length (clients s)")
  case True
  assume "stream_open s"
  then show ?thesis
    using stream_open_refresh_stamp [of s e "stamp (clients s ! i)"]
    by (simp add: stream_open_def log_fp_write_logfile [OF True])
next
  case False
  assume "stream_open s"
  with False show ?thesis by (simp add: write_logfile_def)
qed

lemma stream_open_fold:
  "stream_open s \<Longrightarrow>
   stream_open (fold (\<lambda>i s'. if P i s' then write_logfile e i forced s' else s') xs s)"
  by (induction xs arbitrary: s) (simp_all add: stream_open_write_logfile)

lemma stream_open_flush_all: "stream_open s \<Longrightarrow> stream_open (snd (flush_all_and_abort e s))"
proof -
  assume ok: "stream_open s"
  have "flush_one e = (\<lambda>i s'. if avail (clients s' ! i) \<noteq> 0 then write_logfile e i True s' else s')"
    by (intro ext) (simp add: flush_one_def)
  then have "stream_open (fold (flush_one e) [0 ..< length (clients s)] s)"
    using stream_open_fold [OF ok] by simp
  then show ?thesis
    by (simp add: flush_all_and_abort_def Let_def stream_open_def)
qed

lemma stream_open_find_client: "find_client e a ok s = (r, s') \<Longrightarrow> stream_open s' = stream_open s"
  by (drule find_client_cases) (auto simp: drop_memory_usage_def stream_open_def)

lemma stream_open_recv_datagram:
  assumes "stream_open s"
  shows "stream_open (final (recv_datagram e now a buf reg_ok buf_ok s))"
proof -
  obtain r sf where f: "find_client e a reg_ok s = (r, sf)" by (cases "find_client e a reg_ok s")
  have okf: "stream_open sf" using stream_open_find_client [OF f] assms by simp
  show ?thesis
  proof (cases r)
    case None
    with f okf show ?thesis by (simp add: recv_datagram_def)
  next
    case (Some i)
    define s2 where "s2 = (if avail (clients sf ! i) = 0
        then sf\<lparr>clients := (clients sf)[i := (clients sf ! i)\<lparr>stamp := now\<rparr>]\<rparr> else sf)"
    have o2: "stream_open s2" using okf by (simp add: s2_def stream_open_def)
    show ?thesis
    proof (cases buf_ok)
      case False
      with f Some have "recv_datagram e now a buf reg_ok buf_ok s = Inl (flush_all_and_abort e s2)"
        by (simp add: recv_datagram_def s2_def Let_def)
      then show ?thesis using stream_open_flush_all [OF o2] by simp
    next
      case True
      define s3 where "s3 = s2\<lparr>clients := (clients s2)[i := (clients s2 ! i)\<lparr>buffer := buffer (clients s2 ! i) @ buf\<rparr>]\<rparr>"
      define s4 where "s4 = (if memchr buf newline \<noteq> None then write_logfile e i False s3 else s3)"
      define s5 where "s5 = (if int (avail (clients s4 ! i)) \<ge> wbuf_size e then write_logfile e i True s4 else s4)"
      from True f Some have r: "recv_datagram e now a buf reg_ok buf_ok s = Inr s5"
        by (simp add: recv_datagram_def s2_def s3_def s4_def s5_def Let_def)
      have "stream_open s3" using o2 by (simp add: s3_def stream_open_def)
      then have "stream_open s4" unfolding s4_def by (simp add: stream_open_write_logfile)
      then have "stream_open s5" unfolding s5_def by (simp add: stream_open_write_logfile)
      then show ?thesis using r by simp
    qed
  qed
qed

lemma stream_open_step: "stream_open s \<Longrightarrow> stream_open (final (step e ev s))"
proof (cases ev)
  case Wait
  assume "stream_open s"
  with Wait show ?thesis by (simp add: stream_open_def)
next
  case (Timeout_scan now)
  assume "stream_open s"
  with Timeout_scan show ?thesis by (simp add: timeout_scan_def stream_open_fold)
next
  case (Datagram now a buf reg_ok buf_ok)
  assume "stream_open s"
  with Datagram show ?thesis by (simp add: stream_open_recv_datagram)
next
  case Reclaim
  assume "stream_open s"
  with Reclaim show ?thesis by (simp add: drop_memory_usage_def stream_open_def)
qed

lemma stream_open_run: "stream_open s \<Longrightarrow> stream_open (final (run e evs s))"
proof (induction evs arbitrary: s)
  case Nil
  then show ?case by simp
next
  case (Cons ev evs)
  show ?case
  proof (cases "step e ev s")
    case (Inl x)
    with stream_open_step [OF Cons.prems, of e ev] show ?thesis by simp
  next
    case (Inr s')
    with stream_open_step [OF Cons.prems, of e ev] have "stream_open s'" by simp
    from Cons.IH [OF this] Inr show ?thesis by simp
  qed
qed

text \<open>
  \<open>do_main\<close> runs only when \<open>do_init\<close> has opened a log file, and from then on
  \<open>log_fp\<close> is never null: no write of the loop goes to a null stream.
\<close>

lemma stream_open_reachable: "do_init e t0 = Inr s0 \<Longrightarrow> stream_open (final (run e evs s0))"
  by (rule stream_open_run) (auto simp: do_init_def Let_def stream_open_def split: if_splits)

section \<open>The effect of one datagram on its session\<close>

lemma scan_cong_addrs: "map addr cs = map addr cs' \<Longrightarrow> scan cs a i = scan cs' a i"
proof (induction cs arbitrary: cs' i)
  case Nil
  then show ?case by simp
next
  case (Cons c cs)
  then obtain c' cs'' where "cs' = c' # cs''" by (cases cs') auto
  with Cons show ?case by auto
qed

lemma fwrites_refresh_stamp [simp]: "fwrites (trace (refresh_stamp e n s)) = fwrites (trace s)"
  by (simp add: refresh_stamp_def switch_logfile_def Let_def split: option.splits)

text \<open>One datagram for a session that \<open>find_client\<close> returns, the allocation succeeding.\<close>

lemma recv_datagram_effect:
  assumes f: "find_client e a reg_ok s = (Some i, sf)"
    and nn: "newline \<notin> set (buffer (clients sf ! i))"
    and p: "p = buffer (clients sf ! i)"
    and pos: "0 < wbuf_size e"
  shows "\<exists>s'. recv_datagram e now a buf reg_ok True s = Inr s' \<and>
           map addr (clients s') = map addr (clients sf) \<and>
           addr_str (clients s' ! i) = addr_str (clients sf ! i) \<and>
           (int (length (remainder (p @ buf))) < wbuf_size e \<longrightarrow>
              buffer (clients s' ! i) = remainder (p @ buf) \<and>
              fwrites (trace s') = fwrites (trace sf) @ complete_lines (p @ buf)) \<and>
           (wbuf_size e \<le> int (length (remainder (p @ buf))) \<longrightarrow>
              buffer (clients s' ! i) = [] \<and>
              fwrites (trace s') = fwrites (trace sf) @ complete_lines (p @ buf) @ [remainder (p @ buf)] \<and>
              (\<exists>tr. trace s' = tr @
                 [Fprintf (log_fp s') (stamp_text s' @ addr_str (clients sf ! i)),
                  Fwrite (log_fp s') (remainder (p @ buf)),
                  Fprintf (log_fp s') [newline]]))"
proof -
  define c where "c = clients sf ! i"
  define sa where "sa = sf\<lparr>clients := (clients sf)[i := c\<lparr>stamp := (if buffer c = [] then now else stamp c),
                                                  buffer := buffer c @ buf\<rparr>]\<rparr>"
  define sw where "sw = (if newline \<in> set buf then write_logfile e i False sa else sa)"
  define s' where "s' = (if wbuf_size e \<le> int (length (buffer (clients sw ! i))) then write_logfile e i True sw else sw)"
  have i: "i < length (clients sf)" using find_client_Some [OF f] by simp
  have r: "recv_datagram e now a buf reg_ok True s = Inr s'"
    unfolding s'_def by (rule recv_datagram_eq [OF f c_def sa_def sw_def])
  have ia: "i < length (clients sa)" using i by (simp add: sa_def)
  have ba: "buffer (clients sa ! i) = p @ buf" using i by (simp add: sa_def c_def p)
  have aa: "addr_str (clients sa ! i) = addr_str c" using i by (simp add: sa_def)
  have ma: "map addr (clients sa) = map addr (clients sf)"
    by (simp add: sa_def c_def map_update) (metis i list_update_id map_update nth_map)
  have iw: "i < length (clients sw)" using ia by (simp add: sw_def)
  have bw: "buffer (clients sw ! i) = remainder (p @ buf)"
  proof (cases "newline \<in> set buf")
    case True
    then show ?thesis using ia ba by (simp add: sw_def clients_write_logfile)
  next
    case False
    then have "newline \<notin> set (p @ buf)" using nn p by simp
    then show ?thesis using False ba by (simp add: sw_def remainder_id)
  qed
  have aw: "addr_str (clients sw ! i) = addr_str c"
    using ia aa by (simp add: sw_def clients_write_logfile)
  have fw: "fwrites (trace sw) = fwrites (trace sf) @ complete_lines (p @ buf)"
  proof (cases "newline \<in> set buf")
    case True
    then show ?thesis
      using ba by (simp add: sw_def write_logfile_eq [OF ia refl refl refl]) (simp add: sa_def)
  next
    case False
    then have "newline \<notin> set (p @ buf)" using nn p by simp
    then show ?thesis using False by (simp add: sw_def complete_lines_none sa_def)
  qed
  have mw: "map addr (clients sw) = map addr (clients sf)"
    using ma by (simp add: sw_def)
  have nw: "newline \<notin> set (buffer (clients sw ! i))"
    unfolding bw by (rule remainder_no_newline)
  show ?thesis
  proof (cases "wbuf_size e \<le> int (length (remainder (p @ buf)))")
    case False
    then have "s' = sw" by (simp add: s'_def bw)
    then show ?thesis using r False bw fw mw aw by (auto simp: c_def)
  next
    case True
    then have ne: "remainder (p @ buf) \<noteq> []" using pos by auto
    define sr where "sr = (if last_time sw \<noteq> stamp (clients sw ! i)
        then refresh_stamp e (stamp (clients sw ! i)) sw else sw)"
    have e': "s' = sr\<lparr>clients := (clients sw)[i := (clients sw ! i)\<lparr>buffer := []\<rparr>],
        trace := trace sr @ [Fprintf (log_fp sr) (stamp_text sr @ addr_str c),
           Fwrite (log_fp sr) (remainder (p @ buf)), Fprintf (log_fp sr) [newline]]\<rparr>"
      using True ne
      by (simp add: s'_def bw write_logfile_eq [OF iw refl sr_def refl] aw
          complete_lines_none [OF nw [unfolded bw]] remainder_id [OF nw [unfolded bw]]
          line_events_def partial_events_def)
    have "fwrites (trace sr) = fwrites (trace sw)" by (simp add: sr_def)
    then have "fwrites (trace s') = fwrites (trace sf) @ complete_lines (p @ buf) @ [remainder (p @ buf)]"
      by (simp add: e' fw)
    moreover have "buffer (clients s' ! i) = []" using iw by (simp add: e')
    moreover have "map addr (clients s') = map addr (clients sf)"
      using mw by (simp add: s'_def)
    moreover have "addr_str (clients s' ! i) = addr_str (clients sf ! i)"
      using iw aw by (simp add: e' c_def)
    moreover have "\<exists>tr. trace s' = tr @
                 [Fprintf (log_fp s') (stamp_text s' @ addr_str (clients sf ! i)),
                  Fwrite (log_fp s') (remainder (p @ buf)),
                  Fprintf (log_fp s') [newline]]"
      by (simp add: e' c_def)
    ultimately show ?thesis using r True by auto
  qed
qed

section \<open>Complete lines are written, in order, and nothing else\<close>

lemma run_session:
  assumes "scan (clients s) a 0 = Some i"
    and "newline \<notin> set (buffer (clients s ! i))"
    and "\<forall>n \<le> length ds. int (length (remainder (buffer (clients s ! i) @
            concat (map chunk (take n ds))))) < wbuf_size e"
  shows "\<exists>s'. run e (map (arrival a) ds) s = Inr s' \<and>
           scan (clients s') a 0 = Some i \<and>
           buffer (clients s' ! i) = remainder (buffer (clients s ! i) @ concat (map chunk ds)) \<and>
           fwrites (trace s') =
             fwrites (trace s) @ complete_lines (buffer (clients s ! i) @ concat (map chunk ds))"
  using assms
proof (induction ds arbitrary: s)
  case Nil
  then show ?case by (simp add: remainder_id complete_lines_none)
next
  case (Cons d ds)
  obtain now buf reg_ok where d: "d = (now, buf, reg_ok)" by (cases d)
  define p where "p = buffer (clients s ! i)"
  have nf: "int (length (remainder (p @ concat (map chunk (take n (d # ds)))))) < wbuf_size e"
    if "n \<le> Suc (length ds)" for n
    using Cons.prems(3) that by (simp add: p_def)
  have pos: "0 < wbuf_size e" using nf [of 0] by simp
  have one: "int (length (remainder (p @ buf))) < wbuf_size e"
    using nf [of 1] by (simp add: d chunk_def)
  have f: "find_client e a reg_ok s = (Some i, s)"
    by (rule find_client_registered [OF Cons.prems(1)])
  from recv_datagram_effect [OF f Cons.prems(2) p_def pos, of now buf] one
  obtain s1 where r: "recv_datagram e now a buf reg_ok True s = Inr s1"
    and m: "map addr (clients s1) = map addr (clients s)"
    and b: "buffer (clients s1 ! i) = remainder (p @ buf)"
    and w: "fwrites (trace s1) = fwrites (trace s) @ complete_lines (p @ buf)"
    by auto
  have sc: "scan (clients s1) a 0 = Some i"
    using scan_cong_addrs [OF m, of a 0] Cons.prems(1) by simp
  have nn: "newline \<notin> set (buffer (clients s1 ! i))"
    unfolding b by (rule remainder_no_newline)
  have nf1: "\<forall>n \<le> length ds. int (length (remainder (buffer (clients s1 ! i) @
            concat (map chunk (take n ds))))) < wbuf_size e"
  proof (intro allI impI)
    fix n assume "n \<le> length ds"
    then have "int (length (remainder (p @ concat (map chunk (take (Suc n) (d # ds)))))) < wbuf_size e"
      by (intro nf) simp
    then show "int (length (remainder (buffer (clients s1 ! i) @
            concat (map chunk (take n ds))))) < wbuf_size e"
      unfolding b
      using remainder_append [of "p @ buf" "concat (map chunk (take n ds))"]
      by (simp add: d chunk_def)
  qed
  from Cons.IH [OF sc nn nf1]
  obtain s' where r': "run e (map (arrival a) ds) s1 = Inr s'"
    and sc': "scan (clients s') a 0 = Some i"
    and b': "buffer (clients s' ! i) = remainder (buffer (clients s1 ! i) @ concat (map chunk ds))"
    and w': "fwrites (trace s') =
             fwrites (trace s1) @ complete_lines (buffer (clients s1 ! i) @ concat (map chunk ds))"
    by auto
  have "run e (map (arrival a) (d # ds)) s = Inr s'"
    using r r' by (simp add: d arrival_def)
  moreover have "buffer (clients s' ! i) = remainder (p @ concat (map chunk (d # ds)))"
    unfolding b' b
    using remainder_append [of "p @ buf" "concat (map chunk ds)"]
    by (simp add: d chunk_def)
  moreover have "fwrites (trace s') = fwrites (trace s) @ complete_lines (p @ concat (map chunk (d # ds)))"
    unfolding w' w b
    using complete_lines_append [of "p @ buf" "concat (map chunk ds)"]
    by (simp add: d chunk_def)
  ultimately show ?case using sc' unfolding p_def by blast
qed

text \<open>
  Claim C1. A session is registered and holds no line terminator (as every session
  does in every state the loop reaches). Datagrams of its sender arrive, each appended with its allocation
  succeeding, and at no point is the unterminated tail as long as \<open>wbuf_size\<close>, so no
  flush is forced; no timeout scan intervenes. Then the run returns, and the payloads
  passed to \<open>fwrite\<close> during it are exactly as many lines as the input (what the session
  held, followed by the datagrams) has line terminators; each line is non-empty, ends in
  a terminator and contains no other; the lines in order, followed by what the session
  holds at the end, are the input; and what the session holds has no terminator, so the
  lines are the input up to and including its last terminator.
\<close>

theorem complete_lines_are_emitted:
  assumes "scan (clients s) a 0 = Some i"
    and "newline \<notin> set (buffer (clients s ! i))"
    and "\<forall>n \<le> length ds. int (length (remainder (buffer (clients s ! i) @
            concat (map chunk (take n ds))))) < wbuf_size e"
    and "input = buffer (clients s ! i) @ concat (map chunk ds)"
  shows "\<exists>s' ls. run e (map (arrival a) ds) s = Inr s' \<and>
           fwrites (trace s') = fwrites (trace s) @ ls \<and>
           length ls = count_list input newline \<and>
           (\<forall>l \<in> set ls. l \<noteq> [] \<and> last l = newline \<and> count_list l newline = 1) \<and>
           concat ls @ buffer (clients s' ! i) = input \<and>
           newline \<notin> set (buffer (clients s' ! i))"
proof -
  from run_session [OF assms(1-3)]
  obtain s' where r: "run e (map (arrival a) ds) s = Inr s'"
    and b: "buffer (clients s' ! i) = remainder input"
    and w: "fwrites (trace s') = fwrites (trace s) @ complete_lines input"
    unfolding assms(4) by auto
  have "length (complete_lines input) = count_list input newline"
    by (rule length_complete_lines)
  moreover have "\<forall>l \<in> set (complete_lines input). l \<noteq> [] \<and> last l = newline \<and> count_list l newline = 1"
    using complete_lines_shape by blast
  moreover have "concat (complete_lines input) @ buffer (clients s' ! i) = input"
    unfolding b by (rule concat_complete_lines)
  moreover have "newline \<notin> set (buffer (clients s' ! i))"
    unfolding b by (rule remainder_no_newline)
  ultimately show ?thesis using r w by blast
qed

lemma length_remainder_le: "length (remainder b) \<le> length b"
proof -
  have "length (concat (complete_lines b) @ remainder b) = length b"
    by (simp only: concat_complete_lines)
  then show ?thesis by simp
qed

lemma length_concat_take_le:
  "length (concat (map f (take n xs))) \<le> length (concat (map f xs))"
proof -
  have "concat (map f xs) = concat (map f (take n xs)) @ concat (map f (drop n xs))"
    by (metis append_take_drop_id concat_append map_append)
  then show ?thesis by simp
qed

lemma short_input_never_forces:
  assumes "int (length (p @ concat (map chunk ds))) < w"
  shows "\<forall>n \<le> length ds. int (length (remainder (p @ concat (map chunk (take n ds))))) < w"
proof (intro allI impI)
  fix n
  have "length (remainder (p @ concat (map chunk (take n ds)))) \<le> length (p @ concat (map chunk (take n ds)))"
    by (rule length_remainder_le)
  also have "\<dots> \<le> length (p @ concat (map chunk ds))"
    using length_concat_take_le [of chunk n ds] by simp
  finally show "int (length (remainder (p @ concat (map chunk (take n ds))))) < w"
    using assms by linarith
qed

lemma s_ab_session:
  "scan (clients s_ab) (peer 1) 0 = Some 0" "buffer (clients s_ab ! 0) = ''ab''"
  by (simp_all add: s_ab_def)

lemma three_chunks_input:
  "concat (map chunk three_chunks) = ''c'' @ [newline] @ ''def'' @ [newline] @ ''g'' @ [newline]"
  by (simp add: three_chunks_def chunk_def line_def)

theorem complete_lines_are_emitted_witness:
  "scan (clients s_ab) (peer 1) 0 = Some 0 \<and>
   newline \<notin> set (buffer (clients s_ab ! 0)) \<and>
   int (length (buffer (clients s_ab ! 0) @ concat (map chunk three_chunks))) < wbuf_size env0 \<and>
   count_list (buffer (clients s_ab ! 0) @ concat (map chunk three_chunks)) newline = 3 \<and>
   (\<exists>s' ls. run env0 (map (arrival (peer 1)) three_chunks) s_ab = Inr s' \<and>
      fwrites (trace s') = fwrites (trace s_ab) @ ls \<and> length ls = 3 \<and>
      concat ls @ buffer (clients s' ! 0) =
        ''abc'' @ [newline] @ ''def'' @ [newline] @ ''g'' @ [newline] \<and>
      newline \<notin> set (buffer (clients s' ! 0)))"
proof -
  have nn: "newline \<notin> set (buffer (clients s_ab ! 0))"
    by (simp add: s_ab_session newline_def)
  have sh: "int (length (buffer (clients s_ab ! 0) @ concat (map chunk three_chunks))) < wbuf_size env0"
    by (simp add: s_ab_session three_chunks_input env0_def)
  have k: "count_list (buffer (clients s_ab ! 0) @ concat (map chunk three_chunks)) newline = 3"
    by (simp add: s_ab_session three_chunks_input newline_def)
  from complete_lines_are_emitted [OF s_ab_session(1) nn short_input_never_forces [OF sh] refl]
  obtain s' ls where "run env0 (map (arrival (peer 1)) three_chunks) s_ab = Inr s'"
    and "fwrites (trace s') = fwrites (trace s_ab) @ ls"
    and "length ls = count_list (buffer (clients s_ab ! 0) @ concat (map chunk three_chunks)) newline"
    and "concat ls @ buffer (clients s' ! 0) = buffer (clients s_ab ! 0) @ concat (map chunk three_chunks)"
    and "newline \<notin> set (buffer (clients s' ! 0))"
    by blast
  then have "\<exists>s' ls. run env0 (map (arrival (peer 1)) three_chunks) s_ab = Inr s' \<and>
      fwrites (trace s') = fwrites (trace s_ab) @ ls \<and> length ls = 3 \<and>
      concat ls @ buffer (clients s' ! 0) =
        ''abc'' @ [newline] @ ''def'' @ [newline] @ ''g'' @ [newline] \<and>
      newline \<notin> set (buffer (clients s' ! 0))"
    unfolding k by (auto simp: s_ab_session three_chunks_input)
  with s_ab_session(1) nn sh k show ?thesis by blast
qed

section \<open>A buffer that reaches the limit\<close>

text \<open>
  Claim C5. The claim puts the test on the length of the buffer once the datagram is
  appended. The program first writes the lines the datagram has completed and tests the
  length of what is left. What holds, for a datagram of a session \<open>find_client\<close> returns
  (found or new) that held no line terminator (none does in a state the loop reaches),
  with a positive limit and the allocation succeeding: when the rest after the last terminator of buffer and datagram together is
  at least \<open>wbuf_size\<close> long, the same call of the receive step writes the complete
  lines and then the rest as one more payload, the trace ends with the three calls of
  that record (prefix, rest, terminator), and the buffer is empty.
\<close>

theorem oversized_rest_is_flushed:
  assumes "find_client e a reg_ok s = (Some i, sf)"
    and "newline \<notin> set (buffer (clients sf ! i))"
    and "0 < wbuf_size e"
    and "rest = remainder (buffer (clients sf ! i) @ buf)"
    and "wbuf_size e \<le> int (length rest)"
  shows "\<exists>s'. recv_datagram e now a buf reg_ok True s = Inr s' \<and>
           buffer (clients s' ! i) = [] \<and>
           fwrites (trace s') =
             fwrites (trace sf) @ complete_lines (buffer (clients sf ! i) @ buf) @ [rest] \<and>
           (\<exists>tr. trace s' = tr @
              [Fprintf (log_fp s') (stamp_text s' @ addr_str (clients sf ! i)),
               Fwrite (log_fp s') rest,
               Fprintf (log_fp s') [newline]])"
  using recv_datagram_effect [OF assms(1,2) refl assms(3), of now buf] assms(5)
  unfolding assms(4) by blast

lemma find_client_s_big: "find_client env0 (peer 1) True s_big = (Some 0, s_big)"
  by (simp add: find_client_def s_big_def)

lemma s_big_buffer: "buffer (clients s_big ! 0) = replicate 1023 CHR ''a''"
  by (simp add: s_big_def)

lemma s_big_no_newline: "newline \<notin> set (buffer (clients s_big ! 0))"
  by (simp add: s_big_buffer newline_def)

theorem oversized_rest_is_flushed_witness:
  "find_client env0 (peer 1) True s_big = (Some 0, s_big) \<and>
   newline \<notin> set (buffer (clients s_big ! 0)) \<and> 0 < wbuf_size env0 \<and>
   remainder (buffer (clients s_big ! 0) @ ''b'') = replicate 1023 CHR ''a'' @ ''b'' \<and>
   wbuf_size env0 \<le> int (length (replicate 1023 CHR ''a'' @ ''b'')) \<and>
   (\<exists>s'. recv_datagram env0 1706745541 (peer 1) ''b'' True True s_big = Inr s' \<and>
      buffer (clients s' ! 0) = [] \<and>
      fwrites (trace s') = fwrites (trace s_big) @ [replicate 1023 CHR ''a'' @ ''b''])"
proof -
  have w: "0 < wbuf_size env0" by (simp add: env0_def)
  have n: "newline \<notin> set (buffer (clients s_big ! 0) @ ''b'')"
    by (simp add: s_big_buffer newline_def)
  have r: "replicate 1023 CHR ''a'' @ ''b'' = remainder (buffer (clients s_big ! 0) @ ''b'')"
    using remainder_id [OF n] by (simp add: s_big_buffer)
  have l: "wbuf_size env0 \<le> int (length (replicate 1023 CHR ''a'' @ ''b''))"
    by (simp add: env0_def)
  from oversized_rest_is_flushed [OF find_client_s_big s_big_no_newline w r l, of 1706745541]
  have "\<exists>s'. recv_datagram env0 1706745541 (peer 1) ''b'' True True s_big = Inr s' \<and>
      buffer (clients s' ! 0) = [] \<and>
      fwrites (trace s') = fwrites (trace s_big) @ [replicate 1023 CHR ''a'' @ ''b'']"
    using complete_lines_none [OF n] by auto
  with find_client_s_big s_big_no_newline w r l show ?thesis by simp
qed

text \<open>
  The claim as stated fails when the datagram that takes the buffer over the limit
  completes the line: 1023 bytes are pending, three more arrive, the first of them a
  terminator. The buffer is 1026 bytes long once they are appended, the line of 1024
  bytes is written, and the two bytes after it stay pending; no flush is forced.
\<close>

theorem line_completed_at_the_limit_is_not_flushed:
  "wbuf_size env0 \<le> int (length (buffer (clients s_big ! 0) @ newline # ''ab'')) \<and>
   buffer (clients (final (recv_datagram env0 1706745541 (peer 1) (newline # ''ab'') True True s_big)) ! 0)
     = ''ab'' \<and>
   fwrites (trace (final (recv_datagram env0 1706745541 (peer 1) (newline # ''ab'') True True s_big)))
     = fwrites (trace s_big) @ [replicate 1023 CHR ''a'' @ [newline]]"
proof -
  have w: "0 < wbuf_size env0" by (simp add: env0_def)
  have a: "newline \<notin> set (replicate 1023 CHR ''a'')" by (simp add: newline_def)
  have b: "newline \<notin> set ''ab''" by (simp add: newline_def)
  have r: "remainder (buffer (clients s_big ! 0) @ newline # ''ab'') = ''ab''"
    unfolding s_big_buffer remainder_line [OF a] by (rule remainder_id [OF b])
  have c: "complete_lines (buffer (clients s_big ! 0) @ newline # ''ab'') = [replicate 1023 CHR ''a'' @ [newline]]"
    unfolding s_big_buffer complete_lines_line [OF a] by (simp add: complete_lines_none [OF b])
  have l: "int (length (remainder (buffer (clients s_big ! 0) @ newline # ''ab''))) < wbuf_size env0"
    unfolding r by (simp add: env0_def)
  from recv_datagram_effect [OF find_client_s_big s_big_no_newline refl w, of 1706745541 "newline # ''ab''"] l
  obtain s' where "recv_datagram env0 1706745541 (peer 1) (newline # ''ab'') True True s_big = Inr s'"
    and "buffer (clients s' ! 0) = remainder (buffer (clients s_big ! 0) @ newline # ''ab'')"
    and "fwrites (trace s') = fwrites (trace s_big) @ complete_lines (buffer (clients s_big ! 0) @ newline # ''ab'')"
    by auto
  then show ?thesis
    unfolding r c by (simp add: s_big_buffer env0_def)
qed

section \<open>The stream a call writes to\<close>

lemma stream_after_append [simp]:
  "stream_after fp (xs @ ys) = stream_after (stream_after fp xs) ys"
  by (induction fp xs rule: stream_after.induct) simp_all

lemma stream_after_line_events [simp]: "stream_after fp (line_events h pre ls) = fp"
  by (induction ls) (simp_all add: line_events_def)

lemma stream_after_partial_events [simp]: "stream_after fp (partial_events h pre forced r) = fp"
  by (simp add: partial_events_def)

lemma switch_logfile_stream:
  "\<exists>rot. trace (switch_logfile e t s) = trace s @ rot \<and>
         log_fp (switch_logfile e t s) = stream_after (log_fp s) rot \<and> fwrites rot = []"
  by (cases "log_fp s") (auto simp: switch_logfile_def Let_def)

lemma refresh_stamp_stream:
  "\<exists>rot. trace (refresh_stamp e n s) = trace s @ rot \<and>
         log_fp (refresh_stamp e n s) = stream_after (log_fp s) rot \<and> fwrites rot = []"
proof -
  define t where "t = (case localtime e n of None \<Rightarrow> last_tm s | Some t' \<Rightarrow> t')"
  show ?thesis
  proof (cases "same_date t (last_tm s)")
    case True
    show ?thesis
      unfolding refresh_stamp_same [OF t_def True] by simp
  next
    case False
    show ?thesis
      using switch_logfile_stream [of e t "s\<lparr>stamp_text := snprintf 23 (ymd t @ '' '' @ hms t @ '' ''), last_tm := t\<rparr>"]
      unfolding refresh_stamp_other [OF t_def False] by auto
  qed
qed

section \<open>Allocation failure while appending\<close>

lemma clients_flush_one:
  "clients (flush_one e i s) = (clients s)[i := (clients s ! i)\<lparr>buffer := []\<rparr>]"
proof (cases "avail (clients s ! i) \<noteq> 0")
  case True
  then show ?thesis by (simp add: flush_one_def clients_write_logfile)
next
  case False
  then have "(clients s ! i)\<lparr>buffer := []\<rparr> = clients s ! i" by (simp add: avail_def)
  then show ?thesis using False by (simp add: flush_one_def)
qed

lemma clients_fold_flush:
  assumes "k \<le> length (clients s)"
  shows "clients (fold (flush_one e) [0 ..< k] s) =
     map (\<lambda>c. c\<lparr>buffer := []\<rparr>) (take k (clients s)) @ drop k (clients s)"
  using assms
proof (induction k)
  case 0
  then show ?case by simp
next
  case (Suc k)
  define sm where "sm = fold (flush_one e) [0 ..< k] s"
  have k: "k < length (clients s)" using Suc.prems by simp
  have c: "clients sm = map (\<lambda>c. c\<lparr>buffer := []\<rparr>) (take k (clients s)) @ drop k (clients s)"
    unfolding sm_def using Suc.IH k by simp
  have km: "clients sm ! k = clients s ! k"
    using k by (simp add: c nth_append)
  have d: "drop k (clients s) = clients s ! k # drop (Suc k) (clients s)"
    using k by (simp add: Cons_nth_drop_Suc)
  have "clients (fold (flush_one e) [0 ..< Suc k] s) = (clients sm)[k := (clients s ! k)\<lparr>buffer := []\<rparr>]"
    by (simp add: sm_def [symmetric] clients_flush_one km)
  also have "\<dots> = map (\<lambda>c. c\<lparr>buffer := []\<rparr>) (take k (clients s)) @
      (clients s ! k)\<lparr>buffer := []\<rparr> # drop (Suc k) (clients s)"
    using k by (simp add: c d list_update_append)
  finally show ?case
    using k by (simp add: take_Suc_conv_app_nth)
qed

lemma flush_one_events:
  assumes "i < length (clients s)"
  shows "\<exists>evs. trace (flush_one e i s) = trace s @ evs \<and>
           log_fp (flush_one e i s) = stream_after (log_fp s) evs \<and>
           concat (fwrites evs) = buffer (clients s ! i) \<and>
           (buffer (clients s ! i) \<noteq> [] \<and> newline \<notin> set (buffer (clients s ! i)) \<longrightarrow>
              (\<exists>rot st. evs = rot @
                 [Fprintf (stream_after (log_fp s) rot) (st @ addr_str (clients s ! i)),
                  Fwrite (stream_after (log_fp s) rot) (buffer (clients s ! i)),
                  Fprintf (stream_after (log_fp s) rot) [newline]]))"
proof (cases "avail (clients s ! i) \<noteq> 0")
  case False
  then show ?thesis by (simp add: flush_one_def avail_def)
next
  case True
  define c where "c = clients s ! i"
  define sr where "sr = (if last_time s \<noteq> stamp c then refresh_stamp e (stamp c) s else s)"
  define pre where "pre = stamp_text sr @ addr_str c"
  define evs where "evs = line_events (log_fp sr) pre (complete_lines (buffer c)) @
                 partial_events (log_fp sr) pre True (remainder (buffer c))"
  have w: "flush_one e i s = sr\<lparr>clients := (clients s)[i := c\<lparr>buffer := []\<rparr>], trace := trace sr @ evs\<rparr>"
    using True by (simp add: flush_one_def write_logfile_eq [OF assms c_def sr_def pre_def] evs_def)
  obtain rot where r: "trace sr = trace s @ rot" and l: "log_fp sr = stream_after (log_fp s) rot"
    and f: "fwrites rot = []"
    using refresh_stamp_stream [of e "stamp c" s] by (cases "last_time s \<noteq> stamp c") (auto simp: sr_def)
  have 1: "trace (flush_one e i s) = trace s @ (rot @ evs)" by (simp add: w r)
  have 2: "log_fp (flush_one e i s) = stream_after (log_fp s) (rot @ evs)" by (simp add: w l evs_def)
  have 3: "concat (fwrites (rot @ evs)) = buffer c"
    using concat_complete_lines [of "buffer c"] by (auto simp: f evs_def)
  have 4: "rot @ evs = rot @
                 [Fprintf (stream_after (log_fp s) rot) (stamp_text sr @ addr_str c),
                  Fwrite (stream_after (log_fp s) rot) (buffer c),
                  Fprintf (stream_after (log_fp s) rot) [newline]]"
    if "buffer c \<noteq> []" "newline \<notin> set (buffer c)"
    using that
    by (simp add: evs_def pre_def l complete_lines_none remainder_id line_events_def partial_events_def)
  from 1 2 3 4 show ?thesis unfolding c_def by blast
qed

lemma fold_flush_events:
  assumes "k \<le> length (clients s)" and "sk = fold (flush_one e) [0 ..< k] s"
  shows "\<exists>evs. trace sk = trace s @ evs \<and> log_fp sk = stream_after (log_fp s) evs \<and>
           concat (fwrites evs) = concat (map buffer (take k (clients s))) \<and>
           (\<forall>j < k. buffer (clients s ! j) \<noteq> [] \<and> newline \<notin> set (buffer (clients s ! j)) \<longrightarrow>
              (\<exists>tr st tr2. evs = tr @
                 [Fprintf (stream_after (log_fp s) tr) (st @ addr_str (clients s ! j)),
                  Fwrite (stream_after (log_fp s) tr) (buffer (clients s ! j)),
                  Fprintf (stream_after (log_fp s) tr) [newline]] @ tr2))"
  using assms
proof (induction k arbitrary: sk)
  case 0
  then show ?case by simp
next
  case (Suc k)
  define sm where "sm = fold (flush_one e) [0 ..< k] s"
  have k: "k < length (clients s)" using Suc.prems(1) by simp
  from Suc.IH [OF _ sm_def] k
  obtain evs where t: "trace sm = trace s @ evs" and l: "log_fp sm = stream_after (log_fp s) evs"
    and w: "concat (fwrites evs) = concat (map buffer (take k (clients s)))"
    and r: "\<forall>j < k. buffer (clients s ! j) \<noteq> [] \<and> newline \<notin> set (buffer (clients s ! j)) \<longrightarrow>
              (\<exists>tr st tr2. evs = tr @
                 [Fprintf (stream_after (log_fp s) tr) (st @ addr_str (clients s ! j)),
                  Fwrite (stream_after (log_fp s) tr) (buffer (clients s ! j)),
                  Fprintf (stream_after (log_fp s) tr) [newline]] @ tr2)"
    by auto
  have c: "clients sm = map (\<lambda>c. c\<lparr>buffer := []\<rparr>) (take k (clients s)) @ drop k (clients s)"
    unfolding sm_def using clients_fold_flush [of k s e] k by simp
  have sk: "sk = flush_one e k sm" using Suc.prems(2) by (simp add: sm_def)
  have lm: "k < length (clients sm)" using k by (simp add: c)
  have km: "clients sm ! k = clients s ! k"
    using k by (simp add: c nth_append)
  from flush_one_events [OF lm, of e]
  obtain evk where tk: "trace sk = trace sm @ evk" and lk: "log_fp sk = stream_after (log_fp sm) evk"
    and wk: "concat (fwrites evk) = buffer (clients s ! k)"
    and rk: "buffer (clients s ! k) \<noteq> [] \<and> newline \<notin> set (buffer (clients s ! k)) \<longrightarrow>
              (\<exists>rot st. evk = rot @
                 [Fprintf (stream_after (log_fp sm) rot) (st @ addr_str (clients s ! k)),
                  Fwrite (stream_after (log_fp sm) rot) (buffer (clients s ! k)),
                  Fprintf (stream_after (log_fp sm) rot) [newline]])"
    unfolding sk km by blast
  have 1: "trace sk = trace s @ (evs @ evk)" by (simp add: tk t)
  have 2: "log_fp sk = stream_after (log_fp s) (evs @ evk)" by (simp add: lk l)
  have 3: "concat (fwrites (evs @ evk)) = concat (map buffer (take (Suc k) (clients s)))"
    using k by (simp add: w wk take_Suc_conv_app_nth)
  have 4: "\<exists>tr st tr2. evs @ evk = tr @
                 [Fprintf (stream_after (log_fp s) tr) (st @ addr_str (clients s ! j)),
                  Fwrite (stream_after (log_fp s) tr) (buffer (clients s ! j)),
                  Fprintf (stream_after (log_fp s) tr) [newline]] @ tr2"
    if j: "j < Suc k" and b: "buffer (clients s ! j) \<noteq> []" and n: "newline \<notin> set (buffer (clients s ! j))" for j
  proof (cases "j = k")
    case True
    with rk b n obtain rot st where "evk = rot @
                 [Fprintf (stream_after (log_fp sm) rot) (st @ addr_str (clients s ! j)),
                  Fwrite (stream_after (log_fp sm) rot) (buffer (clients s ! j)),
                  Fprintf (stream_after (log_fp sm) rot) [newline]]"
      by blast
    then have "evs @ evk = (evs @ rot) @
                 [Fprintf (stream_after (log_fp s) (evs @ rot)) (st @ addr_str (clients s ! j)),
                  Fwrite (stream_after (log_fp s) (evs @ rot)) (buffer (clients s ! j)),
                  Fprintf (stream_after (log_fp s) (evs @ rot)) [newline]] @ []"
      by (simp add: l)
    then show ?thesis by blast
  next
    case False
    then have "j < k" using j by simp
    with r b n obtain tr st tr2 where "evs = tr @
                 [Fprintf (stream_after (log_fp s) tr) (st @ addr_str (clients s ! j)),
                  Fwrite (stream_after (log_fp s) tr) (buffer (clients s ! j)),
                  Fprintf (stream_after (log_fp s) tr) [newline]] @ tr2"
      by blast
    then have "evs @ evk = tr @
                 [Fprintf (stream_after (log_fp s) tr) (st @ addr_str (clients s ! j)),
                  Fwrite (stream_after (log_fp s) tr) (buffer (clients s ! j)),
                  Fprintf (stream_after (log_fp s) tr) [newline]] @ (tr2 @ evk)"
      by simp
    then show ?thesis by blast
  qed
  from 1 2 3 4 show ?case by blast
qed

text \<open>
  Claim C6. \<open>find_client\<close> has returned a session and the \<open>realloc\<close> of its buffer
  fails. Then the receive step ends the process with exit status 1, in a state in which
  every buffer is empty. What it has added to the trace is the calls \<open>evs\<close>, then the
  \<open>fprintf\<close> of the marker line \<open>[aborted due to memory allocation failure]\<close> with
  its terminator, then \<open>fflush\<close>: the last two on the stream \<open>log_fp\<close> names at the
  end, which is the stream the switches within \<open>evs\<close> have left and is open when one
  was open before. The payloads passed to \<open>fwrite\<close> in \<open>evs\<close> are, byte for byte and
  in the order of the registry, the pending bytes of all sessions; and every session that
  held pending bytes without a line terminator has its record in \<open>evs\<close>, on the stream
  in use at that point: the prefix ending in its address, its bytes, a terminator. The
  bytes of the datagram itself are not appended. The terminator is the byte 0x0A.
\<close>

theorem allocation_failure_is_fatal:
  assumes "find_client e a reg_ok s = (Some i, sf)"
  shows "\<exists>s' evs. recv_datagram e now a buf reg_ok False s = Inl (1, s') \<and>
           (\<forall>c \<in> set (clients s'). buffer c = []) \<and>
           trace s' = trace sf @ evs @
             [Fprintf (log_fp s') (''[aborted due to memory allocation failure]'' @ [CHR 0x0A]),
              Fflush (log_fp s')] \<and>
           log_fp s' = stream_after (log_fp sf) evs \<and>
           (log_fp sf \<noteq> None \<longrightarrow> log_fp s' \<noteq> None) \<and>
           concat (fwrites evs) = concat (map buffer (clients sf)) \<and>
           (\<forall>j < length (clients sf).
              buffer (clients sf ! j) \<noteq> [] \<and> newline \<notin> set (buffer (clients sf ! j)) \<longrightarrow>
              (\<exists>tr st tr2. evs = tr @
                 [Fprintf (stream_after (log_fp sf) tr) (st @ addr_str (clients sf ! j)),
                  Fwrite (stream_after (log_fp sf) tr) (buffer (clients sf ! j)),
                  Fprintf (stream_after (log_fp sf) tr) [CHR 0x0A]] @ tr2))"
proof -
  define c where "c = clients sf ! i"
  define s2 where "s2 = (if avail c = 0 then sf\<lparr>clients := (clients sf)[i := c\<lparr>stamp := now\<rparr>]\<rparr> else sf)"
  define sk where "sk = fold (flush_one e) [0 ..< length (clients s2)] s2"
  define s' where "s' = sk\<lparr>trace := trace sk @ [Fprintf (log_fp sk) abort_marker, Fflush (log_fp sk)]\<rparr>"
  have r: "recv_datagram e now a buf reg_ok False s = Inl (1, s')"
    by (simp add: recv_datagram_def assms flush_all_and_abort_def Let_def s'_def sk_def s2_def c_def)
  have l2: "length (clients s2) = length (clients sf)" by (simp add: s2_def)
  have i: "i < length (clients sf)" using find_client_Some [OF assms] by simp
  have b2: "buffer (clients s2 ! j) = buffer (clients sf ! j)" for j
    using i by (cases "j = i") (simp_all add: s2_def c_def)
  have a2: "addr_str (clients s2 ! j) = addr_str (clients sf ! j)" for j
    using i by (cases "j = i") (simp_all add: s2_def c_def)
  have m2: "map buffer (clients s2) = map buffer (clients sf)"
    by (rule nth_equalityI) (simp_all add: l2 b2)
  have t2: "trace s2 = trace sf" and f2: "log_fp s2 = log_fp sf" by (simp_all add: s2_def)
  have 1: "clients sk = map (\<lambda>c. c\<lparr>buffer := []\<rparr>) (clients s2)"
    unfolding sk_def using clients_fold_flush [where s = s2 and e = e, OF le_refl] by simp
  have tk: "take (length (clients sf)) (clients s2) = clients s2" by (simp add: l2)
  from fold_flush_events [OF le_refl sk_def, unfolded l2 b2 a2 t2 f2 tk m2]
  obtain evs where t: "trace sk = trace sf @ evs" and l: "log_fp sk = stream_after (log_fp sf) evs"
    and w: "concat (fwrites evs) = concat (map buffer (clients sf))"
    and 3: "\<forall>j < length (clients sf).
              buffer (clients sf ! j) \<noteq> [] \<and> newline \<notin> set (buffer (clients sf ! j)) \<longrightarrow>
              (\<exists>tr st tr2. evs = tr @
                 [Fprintf (stream_after (log_fp sf) tr) (st @ addr_str (clients sf ! j)),
                  Fwrite (stream_after (log_fp sf) tr) (buffer (clients sf ! j)),
                  Fprintf (stream_after (log_fp sf) tr) [newline]] @ tr2)"
    by blast
  have A: "\<forall>c \<in> set (clients s'). buffer c = []"
    by (auto simp: s'_def 1)
  have B: "trace s' = trace sf @ evs @
             [Fprintf (log_fp s') (''[aborted due to memory allocation failure]'' @ [CHR 0x0A]),
              Fflush (log_fp s')]"
    by (simp add: s'_def t abort_marker_def newline_def)
  have C: "log_fp s' = stream_after (log_fp sf) evs" by (simp add: s'_def l)
  have "stream_open s \<Longrightarrow> stream_open (final (recv_datagram e now a buf reg_ok False s))"
    by (rule stream_open_recv_datagram)
  moreover have "log_fp sf \<noteq> None \<Longrightarrow> log_fp s \<noteq> None"
    using assms by (auto simp: find_client_def Let_def drop_memory_usage_def split: option.splits if_splits)
  ultimately have D: "log_fp sf \<noteq> None \<longrightarrow> log_fp s' \<noteq> None"
    by (simp add: r final_def stream_open_def)
  from 3 have E: "\<forall>j < length (clients sf).
              buffer (clients sf ! j) \<noteq> [] \<and> newline \<notin> set (buffer (clients sf ! j)) \<longrightarrow>
              (\<exists>tr st tr2. evs = tr @
                 [Fprintf (stream_after (log_fp sf) tr) (st @ addr_str (clients sf ! j)),
                  Fwrite (stream_after (log_fp sf) tr) (buffer (clients sf ! j)),
                  Fprintf (stream_after (log_fp sf) tr) [CHR 0x0A]] @ tr2)"
    by (simp add: newline_def)
  from r A B C D w E show ?thesis by blast
qed

theorem allocation_failure_is_fatal_witness:
  "find_client env0 (peer 1) True s_ab = (Some 0, s_ab) \<and>
   (\<exists>s' evs. recv_datagram env0 1706745541 (peer 1) ''cd'' True False s_ab = Inl (1, s') \<and>
      trace s' = trace s_ab @ evs @
        [Fprintf (log_fp s') (''[aborted due to memory allocation failure]'' @ [CHR 0x0A]),
         Fflush (log_fp s')] \<and>
      log_fp s' = stream_after (Some ''2024-01-31.log'') evs \<and>
      concat (fwrites evs) = ''ab'' \<and>
      (\<exists>tr st tr2. evs = tr @
         [Fprintf (stream_after (Some ''2024-01-31.log'') tr) (st @ ''10.0.0.1:6666 ''),
          Fwrite (stream_after (Some ''2024-01-31.log'') tr) ''ab'',
          Fprintf (stream_after (Some ''2024-01-31.log'') tr) [CHR 0x0A]] @ tr2))"
proof -
  have c: "clients s_ab = [\<lparr>addr = peer 1, buffer = ''ab'', addr_str = ''10.0.0.1:6666 '', stamp = 1706745540\<rparr>]"
    and fp: "log_fp s_ab = Some ''2024-01-31.log''"
    by (simp_all add: s_ab_def s_init_def)
  have n: "newline \<notin> set ''ab''" by (simp add: newline_def)
  from allocation_failure_is_fatal [OF find_client_s_ab_1, of 1706745541 "''cd''"]
  obtain s' evs where r: "recv_datagram env0 1706745541 (peer 1) ''cd'' True False s_ab = Inl (1, s')"
    and t: "trace s' = trace s_ab @ evs @
             [Fprintf (log_fp s') (''[aborted due to memory allocation failure]'' @ [CHR 0x0A]),
              Fflush (log_fp s')]"
    and l: "log_fp s' = stream_after (log_fp s_ab) evs"
    and w: "concat (fwrites evs) = concat (map buffer (clients s_ab))"
    and f: "\<forall>j < length (clients s_ab).
              buffer (clients s_ab ! j) \<noteq> [] \<and> newline \<notin> set (buffer (clients s_ab ! j)) \<longrightarrow>
              (\<exists>tr st tr2. evs = tr @
                 [Fprintf (stream_after (log_fp s_ab) tr) (st @ addr_str (clients s_ab ! j)),
                  Fwrite (stream_after (log_fp s_ab) tr) (buffer (clients s_ab ! j)),
                  Fprintf (stream_after (log_fp s_ab) tr) [CHR 0x0A]] @ tr2)"
    by blast
  from f [rule_format, of 0] n
  have "\<exists>tr st tr2. evs = tr @
         [Fprintf (stream_after (Some ''2024-01-31.log'') tr) (st @ ''10.0.0.1:6666 ''),
          Fwrite (stream_after (Some ''2024-01-31.log'') tr) ''ab'',
          Fprintf (stream_after (Some ''2024-01-31.log'') tr) [CHR 0x0A]] @ tr2"
    by (simp add: c fp)
  moreover have "concat (fwrites evs) = ''ab''" using w by (simp add: c)
  moreover have "log_fp s' = stream_after (Some ''2024-01-31.log'') evs" using l by (simp add: fp)
  ultimately show ?thesis using r t find_client_s_ab_1 by blast
qed

section \<open>The shape of the stamp and of the address\<close>

lemma digit_is_digit: "is_digit (digit n)"
proof -
  have "''0123456789'' ! (n mod 10) \<in> set ''0123456789''"
    by (rule nth_mem) simp
  then show ?thesis
    unfolding digit_def is_digit_def .
qed

lemma dec_digits: "\<forall>ch \<in> set (dec n). is_digit ch"
proof (induction n rule: dec.induct)
  case (1 n)
  show ?case
  proof (cases "n < 10")
    case True
    then show ?thesis by (simp add: dec.simps [of n] digit_is_digit)
  next
    case False
    with 1 show ?thesis by (simp add: dec.simps [of n] digit_is_digit)
  qed
qed

lemma length_dec: "0 < k \<Longrightarrow> n < 10 ^ k \<Longrightarrow> length (dec n) \<le> k"
proof (induction n arbitrary: k rule: dec.induct)
  case (1 n)
  show ?case
  proof (cases "n < 10")
    case True
    then show ?thesis using "1.prems" by (simp add: dec.simps [of n])
  next
    case False
    then have "1 < k" using "1.prems" by (cases "k = 1") auto
    then obtain k' where k': "k = Suc k'" and "0 < k'" by (cases k) auto
    have "n div 10 < 10 ^ k'" using "1.prems"(2) k' by (simp add: less_mult_imp_div_less mult.commute)
    from "1.IH" [OF False \<open>0 < k'\<close> this] show ?thesis
      using False k' by (simp add: dec.simps [of n])
  qed
qed

lemma fmt_u_shape:
  assumes "0 < w" and "0 \<le> x" and "x < 10 ^ w" and "w \<le> 9"
  shows "length (fmt_u w x) = w \<and> (\<forall>ch \<in> set (fmt_u w x). is_digit ch)"
proof -
  have "(10::int) ^ w \<le> 10 ^ 9" using assms(4) by (intro power_increasing) simp_all
  then have "x < 2 ^ 32" using assms(3) by simp
  then have m: "x mod 4294967296 = x" using assms(2) by simp
  have "nat x < 10 ^ w" using assms(2,3) by (simp add: nat_less_iff)
  then have l: "length (dec (nat x)) \<le> w" using assms(1) by (intro length_dec)
  have "is_digit CHR ''0''" by (simp add: is_digit_def)
  then show ?thesis
    using l dec_digits [of "nat x"] by (auto simp: fmt_u_def Let_def m)
qed

lemma matches_digits: "\<forall>ch \<in> set xs. is_digit ch \<Longrightarrow> matches (replicate (length xs) CHR ''d'') xs"
  by (induction xs) (simp_all add: matches_def)

lemma matches_append: "matches p x \<Longrightarrow> matches q y \<Longrightarrow> matches (p @ q) (x @ y)"
  unfolding matches_def by (rule list_all2_appendI)

lemma matches_same: "CHR ''d'' \<notin> set p \<Longrightarrow> matches p p"
  by (induction p) (auto simp: matches_def)

lemma fmt_u_matches:
  assumes "0 < w" and "0 \<le> x" and "x < 10 ^ w" and "w \<le> 9"
  shows "matches (replicate w CHR ''d'') (fmt_u w x)"
  using fmt_u_shape [OF assms] matches_digits [of "fmt_u w x"] by simp

lemma timestamp_shape:
  assumes "tm_ok t"
  shows "is_timestamp (ymd t @ '' '' @ hms t)"
proof -
  have y: "matches ''dddd'' (fmt_u 4 (tm_year t + 1900))"
    using fmt_u_matches [of 4 "tm_year t + 1900"] assms by (simp add: tm_ok_def numeral_eq_Suc)
  have two: "matches ''dd'' (fmt_u 2 x)" if "0 \<le> x" "x \<le> 99" for x
    using fmt_u_matches [of 2 x] that by (simp add: numeral_eq_Suc)
  have sep: "matches ''-'' ''-''" "matches '' '' '' ''" "matches '':'' '':''"
    by (simp_all add: matches_def)
  have "matches (''dddd'' @ ''-'' @ ''dd'' @ ''-'' @ ''dd'' @ '' '' @ ''dd'' @ '':'' @ ''dd'' @ '':'' @ ''dd'')
     (fmt_u 4 (tm_year t + 1900) @ ''-'' @ fmt_u 2 (tm_mon t + 1) @ ''-'' @ fmt_u 2 (tm_mday t) @ '' '' @
      fmt_u 2 (tm_hour t) @ '':'' @ fmt_u 2 (tm_min t) @ '':'' @ fmt_u 2 (tm_sec t))"
    using assms
    by (intro matches_append y two sep) (simp_all add: tm_ok_def)
  then show ?thesis by (simp add: is_timestamp_def ymd_def hms_def)
qed

lemma matches_length: "matches p x \<Longrightarrow> length x = length p"
  unfolding matches_def by (simp add: list_all2_lengthD)

lemma stamp_text_fits:
  assumes "tm_ok t"
  shows "snprintf 23 (ymd t @ '' '' @ hms t @ '' '') = (ymd t @ '' '' @ hms t) @ '' ''"
proof -
  have "length (ymd t @ '' '' @ hms t) = 19"
    using matches_length [OF timestamp_shape [OF assms, unfolded is_timestamp_def]] by simp
  then show ?thesis by (simp add: snprintf_def)
qed

lemma octet_less: "octet k a < 256"
  by (simp add: octet_def)

lemma length_dec_octet: "length (dec (octet k a)) \<le> 3"
  using length_dec [of 3 "octet k a"] octet_less [of k a] by simp

lemma length_dec_port: "length (dec (unat (p :: 16 word))) \<le> 5"
proof -
  have "unat p < 2 ^ 16" using unsigned_less [of p] by simp
  then have "unat p < 10 ^ 5" by simp
  then show ?thesis using length_dec [of 5 "unat p"] by simp
qed

lemma addr_str_fits: "mk_addr_str a = ip_port a @ '' ''"
proof -
  have "length (inet_ntoa (sin_addr a)) \<le> 15"
    using length_dec_octet [of 3 "sin_addr a"] length_dec_octet [of 2 "sin_addr a"]
      length_dec_octet [of 1 "sin_addr a"] length_dec_octet [of 0 "sin_addr a"]
    by (simp add: inet_ntoa_def)
  then have "length (inet_ntoa (sin_addr a) @ '':'' @ dec (unat (sin_port a)) @ '' '') \<le> 22"
    using length_dec_port [of "sin_port a"] by simp
  then show ?thesis by (simp add: mk_addr_str_def snprintf_def ip_port_def)
qed

lemma trace_switch_logfile:
  "\<exists>rot. trace (switch_logfile e t s) = trace s @ rot \<and> (\<forall>ev \<in> set rot. is_switch ev)"
  by (simp add: switch_logfile_def Let_def split: option.splits)

lemma trace_refresh_stamp_switch:
  "\<exists>rot. trace (refresh_stamp e n s) = trace s @ rot \<and> (\<forall>ev \<in> set rot. is_switch ev)"
proof -
  define t where "t = (case localtime e n of None \<Rightarrow> last_tm s | Some t' \<Rightarrow> t')"
  show ?thesis
  proof (cases "same_date t (last_tm s)")
    case True
    show ?thesis
      unfolding refresh_stamp_same [OF t_def True] by simp
  next
    case False
    obtain rot where "trace (switch_logfile e t
        (s\<lparr>stamp_text := snprintf 23 (ymd t @ '' '' @ hms t @ '' ''), last_tm := t\<rparr>)) = trace s @ rot"
      and "\<forall>ev \<in> set rot. is_switch ev"
      using trace_switch_logfile [of e t "s\<lparr>stamp_text := snprintf 23 (ymd t @ '' '' @ hms t @ '' ''), last_tm := t\<rparr>"]
      by auto
    then show ?thesis
      unfolding refresh_stamp_other [OF t_def False] by auto
  qed
qed

section \<open>The stamp and its cache\<close>

lemma refresh_stamp_statics:
  assumes "t = (case localtime e n of None \<Rightarrow> last_tm s | Some t' \<Rightarrow> t')"
  shows "statics (refresh_stamp e n s) =
     (if same_date t (last_tm s) then last_tm s else t, n, snprintf 23 (ymd t @ '' '' @ hms t @ '' ''))"
proof (cases "same_date t (last_tm s)")
  case True
  show ?thesis
    unfolding refresh_stamp_same [OF assms True] using True by (simp add: statics_def)
next
  case False
  show ?thesis
    unfolding refresh_stamp_other [OF assms False] using False
    by (simp add: statics_def switch_logfile_def Let_def split: option.splits)
qed

lemma statics_refresh_cong:
  assumes "statics s = statics r"
  shows "statics (refresh_stamp e n s) = statics (refresh_stamp e n r)"
proof -
  have l: "last_tm s = last_tm r" using assms by (simp add: statics_def)
  show ?thesis
    unfolding refresh_stamp_statics [OF refl] l ..
qed

lemma statics_write_logfile:
  "statics (write_logfile e i forced s) =
     statics (if i < length (clients s) \<and> last_time s \<noteq> stamp (clients s ! i)
              then refresh_stamp e (stamp (clients s ! i)) s else s)"
proof (cases "i < length (clients s)")
  case True
  show ?thesis
    by (simp add: write_logfile_eq [OF True refl refl refl] True) (simp add: statics_def)
next
  case False
  then show ?thesis by (simp add: write_logfile_def)
qed

lemma rebuilt_inv:
  assumes lt: "\<forall>n t. localtime e n = Some t \<longrightarrow> tm_ok t"
    and r: "r = fold (refresh_stamp e) ns start"
    and u: "u = (case localtime e (last_time r) of None \<Rightarrow> last_tm r | Some t' \<Rightarrow> t')"
  shows "tm_ok (last_tm r) \<and>
         (if ns = [] then last_time r = 0 \<and> stamp_text r = []
          else stamp_text r = snprintf 23 (ymd u @ '' '' @ hms u @ '' ''))"
  using r u
proof (induction ns arbitrary: r u rule: rev_induct)
  case Nil
  then show ?case by (simp add: start_def tm_ok_def)
next
  case (snoc n ns)
  define q where "q = fold (refresh_stamp e) ns start"
  define t where "t = (case localtime e n of None \<Rightarrow> last_tm q | Some t' \<Rightarrow> t')"
  have okq: "tm_ok (last_tm q)" using snoc.IH [OF q_def refl] by simp
  have okt: "tm_ok t" using okq lt by (simp add: t_def split: option.splits)
  have r: "r = refresh_stamp e n q" using snoc.prems(1) by (simp add: q_def)
  have st: "statics r =
     (if same_date t (last_tm q) then last_tm q else t, n, snprintf 23 (ymd t @ '' '' @ hms t @ '' ''))"
    unfolding r by (rule refresh_stamp_statics [OF t_def])
  then have l: "last_tm r = (if same_date t (last_tm q) then last_tm q else t)"
    and n: "last_time r = n" and x: "stamp_text r = snprintf 23 (ymd t @ '' '' @ hms t @ '' '')"
    by (simp_all add: statics_def)
  have "u = t"
  proof (cases "localtime e n")
    case None
    then have "t = last_tm q" by (simp add: t_def)
    then have "last_tm r = last_tm q" by (simp add: l same_date_def)
    with None show ?thesis by (simp add: snoc.prems(2) n t_def)
  next
    case (Some t')
    then show ?thesis by (simp add: snoc.prems(2) n t_def)
  qed
  with okq okt l x show ?case by simp
qed

lemma stamp_of_call:
  assumes lt: "\<forall>n t. localtime e n = Some t \<longrightarrow> tm_ok t"
    and hist: "statics s = statics (fold (refresh_stamp e) ns start)"
    and ex: "n \<noteq> 0 \<or> stamp_text s \<noteq> []"
    and t: "t = (case localtime e n of None \<Rightarrow> last_tm s | Some t' \<Rightarrow> t')"
    and sr: "sr = (if last_time s \<noteq> n then refresh_stamp e n s else s)"
  shows "is_timestamp (ymd t @ '' '' @ hms t) \<and>
         stamp_text sr = (ymd t @ '' '' @ hms t) @ '' '' \<and>
         (\<exists>rot. (\<forall>ev \<in> set rot. is_switch ev) \<and> trace sr = trace s @ rot \<and>
                log_fp sr = stream_after (log_fp s) rot \<and> (last_time s = n \<longrightarrow> rot = [])) \<and>
         statics sr = statics (fold (refresh_stamp e) (if last_time s = n then ns else ns @ [n]) start) \<and>
         last_time sr = n"
proof -
  define r where "r = fold (refresh_stamp e) ns start"
  have eq: "last_tm s = last_tm r" "last_time s = last_time r" "stamp_text s = stamp_text r"
    using hist by (simp_all add: statics_def r_def)
  note inv = rebuilt_inv [OF lt r_def refl, unfolded eq [symmetric]]
  have oks: "tm_ok (last_tm s)" using inv by simp
  have okt: "tm_ok t" using oks lt by (simp add: t split: option.splits)
  have shape: "is_timestamp (ymd t @ '' '' @ hms t)" by (rule timestamp_shape [OF okt])
  show ?thesis
  proof (cases "last_time s = n")
    case True
    have "ns \<noteq> []"
    proof
      assume "ns = []"
      with inv have "last_time s = 0" "stamp_text s = []" by simp_all
      with True ex show False by simp
    qed
    with inv True have "stamp_text s = snprintf 23 (ymd t @ '' '' @ hms t @ '' '')"
      by (simp add: t)
    then have "stamp_text s = (ymd t @ '' '' @ hms t) @ '' ''"
      by (simp only: stamp_text_fits [OF okt])
    with True shape hist show ?thesis by (simp add: sr)
  next
    case False
    have s: "sr = refresh_stamp e n s" using False by (simp add: sr)
    have "statics sr = (if same_date t (last_tm s) then last_tm s else t, n, snprintf 23 (ymd t @ '' '' @ hms t @ '' ''))"
      unfolding s by (rule refresh_stamp_statics [OF t])
    then have "stamp_text sr = snprintf 23 (ymd t @ '' '' @ hms t @ '' '')"
      by (simp add: statics_def)
    then have 1: "stamp_text sr = (ymd t @ '' '' @ hms t) @ '' ''"
      by (simp only: stamp_text_fits [OF okt])
    obtain rot where "trace sr = trace s @ rot" and "\<forall>ev \<in> set rot. is_switch ev"
      unfolding s using trace_refresh_stamp_switch by blast
    moreover obtain rot' where "trace sr = trace s @ rot'" and "log_fp sr = stream_after (log_fp s) rot'"
      unfolding s using refresh_stamp_stream by blast
    ultimately have 2: "\<exists>rot. (\<forall>ev \<in> set rot. is_switch ev) \<and> trace sr = trace s @ rot \<and>
                log_fp sr = stream_after (log_fp s) rot \<and> (last_time s = n \<longrightarrow> rot = [])"
      using False by auto
    have "statics sr = statics (refresh_stamp e n (fold (refresh_stamp e) ns start))"
      unfolding s by (rule statics_refresh_cong [OF hist])
    then have 3: "statics sr = statics (fold (refresh_stamp e) (if last_time s = n then ns else ns @ [n]) start)"
      using False by simp
    have 4: "last_time sr = n" using \<open>statics sr = (if same_date t (last_tm s) then last_tm s else t, n, snprintf 23 (ymd t @ '' '' @ hms t @ '' ''))\<close>
      by (simp add: statics_def)
    from shape 1 2 3 4 show ?thesis by blast
  qed
qed

lemma write_logfile_stamped:
  assumes lt: "\<forall>n t. localtime e n = Some t \<longrightarrow> tm_ok t"
    and hist: "statics s = statics (fold (refresh_stamp e) ns start)"
    and i: "i < length (clients s)"
    and c: "c = clients s ! i"
    and ex: "stamp c \<noteq> 0 \<or> stamp_text s \<noteq> []"
    and t: "t = (case localtime e (stamp c) of None \<Rightarrow> last_tm s | Some t' \<Rightarrow> t')"
    and ts: "ts = ymd t @ '' '' @ hms t"
    and s': "s' = write_logfile e i forced s"
  shows "is_timestamp ts \<and> stamp_text s' = ts @ '' '' \<and> last_time s' = stamp c \<and>
         statics s' =
           statics (fold (refresh_stamp e) (if last_time s = stamp c then ns else ns @ [stamp c]) start) \<and>
         (\<exists>rot. (\<forall>ev \<in> set rot. is_switch ev) \<and> (last_time s = stamp c \<longrightarrow> rot = []) \<and>
            log_fp s' = stream_after (log_fp s) rot \<and>
            trace s' = trace s @ rot @
              line_events (log_fp s') (ts @ '' '' @ addr_str c) (complete_lines (buffer c)) @
              partial_events (log_fp s') (ts @ '' '' @ addr_str c) forced (remainder (buffer c)))"
proof -
  define sr where "sr = (if last_time s \<noteq> stamp c then refresh_stamp e (stamp c) s else s)"
  have w: "s' = sr\<lparr>clients := (clients s)[i := c\<lparr>buffer := (if forced then [] else remainder (buffer c))\<rparr>],
        trace := trace sr @ line_events (log_fp sr) (stamp_text sr @ addr_str c) (complete_lines (buffer c)) @
                 partial_events (log_fp sr) (stamp_text sr @ addr_str c) forced (remainder (buffer c))\<rparr>"
    unfolding s' by (rule write_logfile_eq [OF i c sr_def refl])
  from stamp_of_call [OF lt hist ex t sr_def]
  obtain rot where sh: "is_timestamp ts" and st: "stamp_text sr = ts @ '' ''"
    and sw: "\<forall>ev \<in> set rot. is_switch ev" and tr: "trace sr = trace s @ rot"
    and fp: "log_fp sr = stream_after (log_fp s) rot" and no: "last_time s = stamp c \<longrightarrow> rot = []"
    and hi: "statics sr =
       statics (fold (refresh_stamp e) (if last_time s = stamp c then ns else ns @ [stamp c]) start)"
    and lt': "last_time sr = stamp c"
    unfolding ts by blast
  have 1: "stamp_text s' = ts @ '' ''" by (simp add: w st)
  have 2: "last_time s' = stamp c" by (simp add: w lt')
  have 3: "statics s' = statics sr" by (simp add: w statics_def)
  have 4: "log_fp s' = stream_after (log_fp s) rot" by (simp add: w fp)
  have 5: "trace s' = trace s @ rot @
              line_events (log_fp s') (ts @ '' '' @ addr_str c) (complete_lines (buffer c)) @
              partial_events (log_fp s') (ts @ '' '' @ addr_str c) forced (remainder (buffer c))"
    by (simp add: w tr st)
  from sh 1 2 3 hi sw no 4 5 show ?thesis by (simp only:) blast
qed

lemma history_write_logfile:
  assumes "\<exists>ns. statics s = statics (fold (refresh_stamp e) ns start)"
  shows "\<exists>ns. statics (write_logfile e i forced s) = statics (fold (refresh_stamp e) ns start)"
proof -
  from assms obtain ns where h: "statics s = statics (fold (refresh_stamp e) ns start)" by blast
  show ?thesis
  proof (cases "i < length (clients s) \<and> last_time s \<noteq> stamp (clients s ! i)")
    case True
    define n where "n = stamp (clients s ! i)"
    have "statics (write_logfile e i forced s) = statics (refresh_stamp e n s)"
      using True by (simp add: statics_write_logfile n_def)
    also have "\<dots> = statics (refresh_stamp e n (fold (refresh_stamp e) ns start))"
      by (rule statics_refresh_cong [OF h])
    also have "\<dots> = statics (fold (refresh_stamp e) (ns @ [n]) start)" by simp
    finally show ?thesis by blast
  next
    case False
    then have "statics (write_logfile e i forced s) = statics s"
      unfolding statics_write_logfile by (simp only: if_False)
    with h show ?thesis by metis
  qed
qed

lemma history_fold:
  "\<exists>ns. statics s = statics (fold (refresh_stamp e) ns start) \<Longrightarrow>
   \<exists>ns. statics (fold (\<lambda>i s'. if P i s' then write_logfile e i forced s' else s') xs s)
     = statics (fold (refresh_stamp e) ns start)"
proof (induction xs arbitrary: s)
  case Nil
  then show ?case by simp
next
  case (Cons x xs)
  have "\<exists>ns. statics (if P x s then write_logfile e x forced s else s) = statics (fold (refresh_stamp e) ns start)"
    using Cons.prems history_write_logfile [OF Cons.prems, of x forced] by (cases "P x s") simp_all
  from Cons.IH [OF this] show ?case by simp
qed

lemma history_flush_all:
  assumes "\<exists>ns. statics s = statics (fold (refresh_stamp e) ns start)"
  shows "\<exists>ns. statics (snd (flush_all_and_abort e s)) = statics (fold (refresh_stamp e) ns start)"
proof -
  have "flush_one e = (\<lambda>i s'. if avail (clients s' ! i) \<noteq> 0 then write_logfile e i True s' else s')"
    by (intro ext) (simp add: flush_one_def)
  then have "\<exists>ns. statics (fold (flush_one e) [0 ..< length (clients s)] s) = statics (fold (refresh_stamp e) ns start)"
    using history_fold [OF assms] by simp
  then show ?thesis
    by (simp add: flush_all_and_abort_def Let_def statics_def)
qed

lemma statics_find_client: "find_client e a ok s = (r, s') \<Longrightarrow> statics s' = statics s"
  by (drule find_client_cases) (auto simp: drop_memory_usage_def statics_def)

lemma history_recv_datagram:
  assumes "\<exists>ns. statics s = statics (fold (refresh_stamp e) ns start)"
  shows "\<exists>ns. statics (final (recv_datagram e now a buf reg_ok buf_ok s)) = statics (fold (refresh_stamp e) ns start)"
proof -
  obtain r sf where f: "find_client e a reg_ok s = (r, sf)" by (cases "find_client e a reg_ok s")
  have okf: "\<exists>ns. statics sf = statics (fold (refresh_stamp e) ns start)"
    using statics_find_client [OF f] assms by simp
  show ?thesis
  proof (cases r)
    case None
    with f okf show ?thesis by (simp add: recv_datagram_def final_def)
  next
    case (Some i)
    define s2 where "s2 = (if avail (clients sf ! i) = 0
        then sf\<lparr>clients := (clients sf)[i := (clients sf ! i)\<lparr>stamp := now\<rparr>]\<rparr> else sf)"
    have "statics s2 = statics sf" by (simp add: s2_def statics_def)
    with okf have o2: "\<exists>ns. statics s2 = statics (fold (refresh_stamp e) ns start)" by simp
    show ?thesis
    proof (cases buf_ok)
      case False
      with f Some have "recv_datagram e now a buf reg_ok buf_ok s = Inl (flush_all_and_abort e s2)"
        by (simp add: recv_datagram_def s2_def Let_def)
      then show ?thesis using history_flush_all [OF o2] by (simp add: final_def split_beta)
    next
      case True
      define s3 where "s3 = s2\<lparr>clients := (clients s2)[i := (clients s2 ! i)\<lparr>buffer := buffer (clients s2 ! i) @ buf\<rparr>]\<rparr>"
      define s4 where "s4 = (if memchr buf newline \<noteq> None then write_logfile e i False s3 else s3)"
      define s5 where "s5 = (if int (avail (clients s4 ! i)) \<ge> wbuf_size e then write_logfile e i True s4 else s4)"
      from True f Some have r: "recv_datagram e now a buf reg_ok buf_ok s = Inr s5"
        by (simp add: recv_datagram_def s2_def s3_def s4_def s5_def Let_def)
      have "statics s3 = statics s2" by (simp add: s3_def statics_def)
      with o2 have o3: "\<exists>ns. statics s3 = statics (fold (refresh_stamp e) ns start)" by simp
      have o4: "\<exists>ns. statics s4 = statics (fold (refresh_stamp e) ns start)"
        unfolding s4_def using o3 history_write_logfile [OF o3, of i False] by (cases "memchr buf newline \<noteq> None") simp_all
      have "\<exists>ns. statics s5 = statics (fold (refresh_stamp e) ns start)"
        unfolding s5_def using o4 history_write_logfile [OF o4, of i True]
        by (cases "int (avail (clients s4 ! i)) \<ge> wbuf_size e") simp_all
      then show ?thesis using r by (simp add: final_def)
    qed
  qed
qed

lemma history_step:
  assumes "\<exists>ns. statics s = statics (fold (refresh_stamp e) ns start)"
  shows "\<exists>ns. statics (final (step e ev s)) = statics (fold (refresh_stamp e) ns start)"
proof (cases ev)
  case Wait
  with assms show ?thesis by (simp add: statics_def final_def)
next
  case (Timeout_scan now)
  with history_fold [OF assms] show ?thesis by (simp add: timeout_scan_def final_def)
next
  case (Datagram now a buf reg_ok buf_ok)
  with history_recv_datagram [OF assms] show ?thesis by simp
next
  case Reclaim
  with assms show ?thesis by (simp add: drop_memory_usage_def statics_def final_def)
qed

lemma history_run:
  "\<exists>ns. statics s = statics (fold (refresh_stamp e) ns start) \<Longrightarrow>
   \<exists>ns. statics (final (run e evs s)) = statics (fold (refresh_stamp e) ns start)"
proof (induction evs arbitrary: s)
  case Nil
  then show ?case by (simp add: final_def)
next
  case (Cons ev evs)
  show ?case
  proof (cases "step e ev s")
    case (Inl x)
    with history_step [OF Cons.prems, of ev] show ?thesis by simp
  next
    case (Inr s')
    with history_step [OF Cons.prems, of ev]
    have "\<exists>ns. statics s' = statics (fold (refresh_stamp e) ns start)" by (simp add: final_def)
    from Cons.IH [OF this] Inr show ?thesis by simp
  qed
qed

text \<open>
  The three variables of the stamp are those left by rebuilds in every state the loop
  reaches from \<open>do_init\<close>, and in every state in which it calls \<open>write_logfile\<close>:
  between two states of the loop only the calls of \<open>write_logfile\<close> change them, and
  each call leaves them as a rebuild does, or as they were.
\<close>

lemma history_reachable:
  assumes "do_init e t0 = Inr s0"
  shows "\<exists>ns. statics (final (run e evs s0)) = statics (fold (refresh_stamp e) ns start)"
proof -
  have "statics s0 = statics (fold (refresh_stamp e) [] start)"
    using assms by (auto simp: do_init_def Let_def statics_def switch_logfile_def split: if_splits option.splits)
  then show ?thesis by (intro history_run) blast
qed

section \<open>The format of a record\<close>



lemma peer1_text: "mk_addr_str (peer 1) = ''10.0.0.1:6666 ''" "ip_port (peer 1) = ''10.0.0.1:6666''"
  by (simp_all add: ip_port_def peer_def fmt_eval)





lemma hi_yo:
  "complete_lines (line ''hi'' @ ''yo'') = [line ''hi'']" "remainder (line ''hi'' @ ''yo'') = ''yo''"
  "complete_lines (line ''late'' @ ''rest'') = [line ''late'']" "remainder (line ''late'' @ ''rest'') = ''rest''"
proof -
  have n: "newline \<notin> set ''hi''" "newline \<notin> set ''yo''" "newline \<notin> set ''late''" "newline \<notin> set ''rest''"
    by (simp_all add: newline_def)
  show "complete_lines (line ''hi'' @ ''yo'') = [line ''hi'']"
    using complete_lines_line [OF n(1), of "''yo''"] complete_lines_none [OF n(2)] by (simp add: line_def)
  show "remainder (line ''hi'' @ ''yo'') = ''yo''"
    using remainder_line [OF n(1), of "''yo''"] remainder_id [OF n(2)] by (simp add: line_def)
  show "complete_lines (line ''late'' @ ''rest'') = [line ''late'']"
    using complete_lines_line [OF n(3), of "''rest''"] complete_lines_none [OF n(4)] by (simp add: line_def)
  show "remainder (line ''late'' @ ''rest'') = ''rest''"
    using remainder_line [OF n(3), of "''rest''"] remainder_id [OF n(4)] by (simp add: line_def)
qed








section \<open>The records of one datagram\<close>

text \<open>
  One datagram, in any state the loop reaches: the calls of \<open>write_logfile\<close> it makes
  (for the completed lines, then for a rest at the limit) are made in states that differ
  from the state of the loop in the registry alone, and the second finds the stamp of
  the first in the cache.
\<close>

lemma datagram_records:
  assumes lt: "\<forall>n t. localtime e n = Some t \<longrightarrow> tm_ok t"
    and init: "do_init e t0 = Inr s0"
    and run: "run e evs s0 = Inr s"
    and f: "find_client e a reg_ok s = (Some i, sf)"
    and p: "p = buffer (clients sf ! i)"
    and n: "n = (if p = [] then now else stamp (clients sf ! i))"
    and ex: "n \<noteq> 0 \<or> stamp_text s \<noteq> []"
    and pos: "0 < wbuf_size e"
    and t: "t = (case localtime e n of None \<Rightarrow> last_tm s | Some t' \<Rightarrow> t')"
    and ts: "ts = ymd t @ '' '' @ hms t"
    and pre: "pre = ts @ '' '' @ ip_port a @ '' ''"
  shows "is_timestamp ts \<and>
         (\<exists>s' rot. recv_datagram e now a buf reg_ok True s = Inr s' \<and>
            (\<forall>ev \<in> set rot. is_switch ev) \<and>
            trace s' = trace s @ rot @ line_events (log_fp s') pre (complete_lines (p @ buf)) @
              partial_events (log_fp s') pre (wbuf_size e \<le> int (length (remainder (p @ buf))))
                (remainder (p @ buf)))"
proof -
  from history_reachable [OF init, of evs] run
  obtain ns where h: "statics s = statics (fold (refresh_stamp e) ns start)" by (auto simp: final_def)
  have oks: "sessions_ok s" using sessions_ok_reachable [OF init, of evs] run by (simp add: final_def)
  have okf: "sessions_ok sf" by (rule sessions_ok_find_client [OF f oks])
  have i: "i < length (clients sf)" and ad: "addr (clients sf ! i) = a"
    using find_client_Some [OF f] by simp_all
  define c where "c = clients sf ! i"
  have cs: "c \<in> set (clients sf)" using i by (simp add: c_def)
  have as: "addr_str c = ip_port a @ '' ''"
    using okf cs ad by (simp add: sessions_ok_def c_def addr_str_fits)
  have nn: "newline \<notin> set p" using okf cs by (simp add: sessions_ok_def p c_def)
  have hf: "statics sf = statics s" by (rule statics_find_client [OF f])
  have tf: "trace sf = trace s"
    using find_client_cases [OF f] by auto
  define sa where "sa = sf\<lparr>clients := (clients sf)[i := c\<lparr>stamp := (if buffer c = [] then now else stamp c),
                                                  buffer := buffer c @ buf\<rparr>]\<rparr>"
  define sw where "sw = (if newline \<in> set buf then write_logfile e i False sa else sa)"
  define s' where "s' = (if wbuf_size e \<le> int (length (buffer (clients sw ! i))) then write_logfile e i True sw else sw)"
  have r: "recv_datagram e now a buf reg_ok True s = Inr s'"
    unfolding s'_def by (rule recv_datagram_eq [OF f c_def sa_def sw_def])
  have ia: "i < length (clients sa)" using i by (simp add: sa_def)
  have ca: "clients sa ! i = c\<lparr>stamp := n, buffer := p @ buf\<rparr>"
    using i by (simp add: sa_def n p c_def)
  have sta: "statics sa = statics s" using hf by (simp add: sa_def statics_def)
  then have ha: "statics sa = statics (fold (refresh_stamp e) ns start)" using h by simp
  have fa: "last_tm sa = last_tm s" "stamp_text sa = stamp_text s"
    using sta by (simp_all add: statics_def)
  have tra: "trace sa = trace s" by (simp add: sa_def tf)
  have exa: "stamp (clients sa ! i) \<noteq> 0 \<or> stamp_text sa \<noteq> []" using ex by (simp add: ca fa)
  have ta: "t = (case localtime e (stamp (clients sa ! i)) of None \<Rightarrow> last_tm sa | Some t' \<Rightarrow> t')"
    unfolding fa t by (simp add: ca)
  have prea: "ts @ '' '' @ addr_str (clients sa ! i) = pre" by (simp add: ca as pre)
  have sh: "is_timestamp ts"
    using write_logfile_stamped [OF lt ha ia refl exa ta ts refl] by simp
  have one: "\<exists>rot. (\<forall>ev \<in> set rot. is_switch ev) \<and>
       trace (write_logfile e i forced sa) = trace s @ rot @
         line_events (log_fp (write_logfile e i forced sa)) pre (complete_lines (p @ buf)) @
         partial_events (log_fp (write_logfile e i forced sa)) pre forced (remainder (p @ buf))" for forced
    using write_logfile_stamped [OF lt ha ia refl exa ta ts refl, of forced]
    unfolding prea tra by (auto simp: ca)
  show ?thesis
  proof (cases "newline \<in> set buf")
    case False
    then have nb: "newline \<notin> set (p @ buf)" using nn by simp
    have sw: "sw = sa" using False by (simp add: sw_def)
    have bw: "buffer (clients sa ! i) = remainder (p @ buf)"
      by (simp add: ca remainder_id [OF nb])
    show ?thesis
    proof (cases "wbuf_size e \<le> int (length (remainder (p @ buf)))")
      case True
      then have "s' = write_logfile e i True sa" by (simp add: s'_def bw sw)
      with one [of True] True r sh show ?thesis by auto
    next
      case False
      then have "s' = sa" by (simp add: s'_def bw sw)
      then have "trace s' = trace s @ [] @ line_events (log_fp s') pre (complete_lines (p @ buf)) @
              partial_events (log_fp s') pre (wbuf_size e \<le> int (length (remainder (p @ buf))))
                (remainder (p @ buf))"
        using False by (simp add: tra complete_lines_none [OF nb] line_events_def partial_events_def)
      with r sh show ?thesis by (intro conjI exI [of _ s'] exI [of _ "[]"]) simp_all
    qed
  next
    case True
    then have sw: "sw = write_logfile e i False sa" by (simp add: sw_def)
    from write_logfile_stamped [OF lt ha ia refl exa ta ts sw]
    obtain rot where x: "stamp_text sw = ts @ '' ''" and l: "last_time sw = stamp (clients sa ! i)"
      and hw: "statics sw = statics (fold (refresh_stamp e)
          (if last_time sa = stamp (clients sa ! i) then ns else ns @ [stamp (clients sa ! i)]) start)"
      and rs: "\<forall>ev \<in> set rot. is_switch ev"
      and trw: "trace sw = trace s @ rot @ line_events (log_fp sw) pre (complete_lines (p @ buf)) @
          partial_events (log_fp sw) pre False (remainder (p @ buf))"
      unfolding prea tra by (auto simp: ca)
    have iw: "i < length (clients sw)" using ia by (simp add: sw clients_write_logfile)
    have cw: "clients sw ! i = c\<lparr>stamp := n, buffer := remainder (p @ buf)\<rparr>"
      using ia by (simp add: sw clients_write_logfile ca)
    have bw: "buffer (clients sw ! i) = remainder (p @ buf)" by (simp add: cw)
    show ?thesis
    proof (cases "wbuf_size e \<le> int (length (remainder (p @ buf)))")
      case False
      then have "s' = sw" by (simp add: s'_def bw)
      with trw False have "trace s' = trace s @ rot @ line_events (log_fp s') pre (complete_lines (p @ buf)) @
              partial_events (log_fp s') pre (wbuf_size e \<le> int (length (remainder (p @ buf))))
                (remainder (p @ buf))"
        by (simp add: partial_events_def)
      with r sh rs show ?thesis by blast
    next
      case True
      then have e': "s' = write_logfile e i True sw" by (simp add: s'_def bw)
      have exw: "stamp (clients sw ! i) \<noteq> 0 \<or> stamp_text sw \<noteq> []" by (simp add: x)
      have lw: "last_time sw = stamp (clients sw ! i)" using l by (simp add: cw ca)
      define u where "u = (case localtime e (stamp (clients sw ! i)) of None \<Rightarrow> last_tm sw | Some t' \<Rightarrow> t')"
      define us where "us = ymd u @ '' '' @ hms u"
      from write_logfile_stamped [OF lt hw iw refl exw u_def us_def e']
      obtain rot' where x': "stamp_text s' = us @ '' ''"
        and h': "statics s' = statics (fold (refresh_stamp e)
          (if last_time sa = stamp (clients sa ! i) then ns else ns @ [stamp (clients sa ! i)]) start)"
        and no: "rot' = []" and fp': "log_fp s' = stream_after (log_fp sw) rot'"
        and tr': "trace s' = trace sw @ rot' @
              line_events (log_fp s') (us @ '' '' @ addr_str (clients sw ! i)) (complete_lines (buffer (clients sw ! i))) @
              partial_events (log_fp s') (us @ '' '' @ addr_str (clients sw ! i)) True (remainder (buffer (clients sw ! i)))"
        using lw by auto
      have "statics s' = statics sw" using h' hw by simp
      then have "stamp_text s' = stamp_text sw" by (simp add: statics_def)
      then have us: "us = ts" using x x' by simp
      have lf: "log_fp s' = log_fp sw" using fp' no by simp
      have rr: "newline \<notin> set (remainder (p @ buf))" by (rule remainder_no_newline)
      have "trace s' = trace s @ rot @ line_events (log_fp s') pre (complete_lines (p @ buf)) @
              partial_events (log_fp s') pre (wbuf_size e \<le> int (length (remainder (p @ buf))))
                (remainder (p @ buf))"
        using True
        by (simp add: tr' no trw lf us cw as pre complete_lines_none [OF rr] remainder_id [OF rr]
            line_events_def partial_events_def)
      with r sh rs show ?thesis by blast
    qed
  qed
qed

section \<open>A full registry and a new identity\<close>

lemma find_client_full:
  "scan (clients s) a 0 = None \<Longrightarrow> max_clients e \<le> int (length (clients s)) \<Longrightarrow>
   find_client e a ok s = (None, drop_memory_usage (s\<lparr>try_drop_memory_usage := True\<rparr>))"
  by (simp add: find_client_def)

text \<open>
  One datagram that is a complete line, from a sender not yet registered, while there
  is room and the stamp is the one of the current second.
\<close>

lemma recv_new_line:
  assumes "scan (clients s) a 0 = None" and "int (length (clients s)) < max_clients e"
    and "last_time s = now" and "newline \<notin> set x" and "0 < wbuf_size e"
  shows "recv_datagram e now a (line x) True True s =
     Inr (s\<lparr>clients := clients s @ [\<lparr>addr = a, buffer = [], addr_str = mk_addr_str a, stamp = now\<rparr>],
            trace := trace s @ [Fprintf (log_fp s) (stamp_text s @ mk_addr_str a), Fwrite (log_fp s) (line x)]\<rparr>)"
proof -
  define n where "n = length (clients s)"
  define c0 where "c0 = \<lparr>addr = a, buffer = [], addr_str = mk_addr_str a, stamp = 0\<rparr>"
  define c where "c = \<lparr>addr = a, buffer = line x, addr_str = mk_addr_str a, stamp = now\<rparr>"
  define sf where "sf = s\<lparr>clients := clients s @ [c0]\<rparr>"
  define sa where "sa = s\<lparr>clients := clients s @ [c]\<rparr>"
  have f: "find_client e a True s = (Some n, sf)"
    using assms(1,2) by (simp add: find_client_def n_def sf_def c0_def)
  have c0n: "c0 = clients sf ! n" by (simp add: sf_def n_def)
  have sa': "sa = sf\<lparr>clients := (clients sf)[n := c0\<lparr>stamp := (if buffer c0 = [] then now else stamp c0),
                                                  buffer := buffer c0 @ line x\<rparr>]\<rparr>"
    by (simp add: sa_def sf_def n_def c0_def c_def)
  have na: "n < length (clients sa)" and ca: "c = clients sa ! n"
    by (simp_all add: sa_def n_def)
  have sr: "sa = (if last_time sa \<noteq> stamp c then refresh_stamp e (stamp c) sa else sa)"
    using assms(3) by (simp add: sa_def c_def)
  have w: "write_logfile e n False sa =
      s\<lparr>clients := clients s @ [c\<lparr>buffer := []\<rparr>],
        trace := trace s @ [Fprintf (log_fp s) (stamp_text s @ mk_addr_str a), Fwrite (log_fp s) (line x)]\<rparr>"
    unfolding write_logfile_eq [OF na ca sr refl]
    by (simp add: sa_def c_def n_def complete_lines_one [OF assms(4)] remainder_one [OF assms(4)]
        line_events_def partial_events_def)
  have "\<not> wbuf_size e \<le> int (length (buffer (clients (write_logfile e n False sa) ! n)))"
    unfolding w using assms(5) by (simp add: n_def)
  then show ?thesis
    unfolding recv_datagram_eq [OF f c0n sa' refl]
    by (simp add: newline_in_line w c_def)
qed

lemma second_cycle_fills:
  "do_main env0 [(1706745540, map (\<lambda>n. (peer n, line ''x'', True, True)) ten)] s_day = Inr s_full"
proof -
  have nl: "newline \<notin> set ''x''" by (simp add: newline_def)
  have w: "0 < wbuf_size env0" by (simp add: env0_def)
  note step = recv_new_line [where e = env0 and now = 1706745540, OF _ _ _ nl w]
  show ?thesis
    by (simp add: do_main_def cycle_def cycle_body_def ten_def timeout_scan_def step
        drop_memory_usage_def s_day_def s_full_def idle_def env0_sel peer_def)
qed

lemma s_full_sel:
  "clients s_full = map idle ten" "try_drop_memory_usage s_full = False"
  "log_fp s_full = Some ''2024-01-31.log''"
  by (simp_all add: s_full_def s_day_def)

lemma scan_s_full: "scan (clients s_full) (peer 11) 0 = None"
  by (simp add: scan_None_iff s_full_sel ten_def idle_def peer_def)

lemma drop_s_full:
  "drop_memory_usage (s\<lparr>try_drop_memory_usage := True\<rparr>) = s\<lparr>clients := []\<rparr>"
  if "clients s = map idle ten" and "\<not> try_drop_memory_usage s" for s
  using that by (cases s) (simp add: drop_memory_usage_def drop_loop_eq ten_def idle_def avail_def)

text \<open>
  Claim C2. The claim asks that a new identity be admitted when the reclamation run by
  \<open>find_client\<close> at a full registry frees a slot. The program does not do so: the test
  after the reclamation reads \<open>i\<close>, the count taken before it, so \<open>find_client\<close>
  returns \<open>NULL\<close> whenever it found the registry full. The two cycles that fill the
  registry with ten idle sessions lead to \<open>s_full\<close>; there the reclamation in
  \<open>find_client\<close> removes all ten sessions, the eleventh sender is refused all the same,
  and the cycle in which its datagram arrives writes nothing but leaves the registry
  empty.
\<close>

theorem find_client_rejects_after_reclaim:
  "do_main env0 [(1706745540, [(peer 1, line ''up'', True, True)]),
                 (1706745540, map (\<lambda>n. (peer n, line ''x'', True, True)) ten)] s_init = Inr s_full \<and>
   num_clients s_full = 10 \<and> max_clients env0 = 10 \<and>
   find_client env0 (peer 11) True s_full = (None, s_full\<lparr>clients := []\<rparr>) \<and>
   num_clients (s_full\<lparr>clients := []\<rparr>) = 0 \<and>
   do_main env0 [(1706745540, [(peer 11, line ''x'', True, True)])] s_full =
     Inr (s_full\<lparr>clients := [], trace := trace s_full @ [Fflush (Some ''2024-01-31.log'')]\<rparr>)"
proof -
  have r: "do_main env0 ([(1706745540, [(peer 1, line ''up'', True, True)])] @
                 [(1706745540, map (\<lambda>n. (peer n, line ''x'', True, True)) ten)]) s_init = Inr s_full"
    unfolding do_main_append first_cycle by (simp add: second_cycle_fills)
  have n: "num_clients s_full = 10" by (simp add: num_clients_def s_full_sel ten_def)
  have m: "max_clients env0 = 10" by (simp add: env0_def)
  have "max_clients env0 \<le> int (length (clients s_full))"
    using n m by (simp add: num_clients_def)
  from find_client_full [OF scan_s_full this, of True]
  have f: "find_client env0 (peer 11) True s_full = (None, s_full\<lparr>clients := []\<rparr>)"
    by (simp add: drop_s_full s_full_sel)
  define sw where "sw = s_full\<lparr>trace := trace s_full @ [Fflush (log_fp s_full)]\<rparr>"
  have t: "timeout_scan env0 1706745540 sw = sw"
    by (simp add: timeout_scan_def sw_def s_full_sel ten_def idle_def avail_def)
  have "scan (clients sw) (peer 11) 0 = None" "max_clients env0 \<le> int (length (clients sw))"
    using scan_s_full n m by (simp_all add: sw_def num_clients_def)
  from find_client_full [OF this, of True]
  have "find_client env0 (peer 11) True sw = (None, sw\<lparr>clients := []\<rparr>)"
    by (simp add: drop_s_full sw_def s_full_sel)
  then have d: "recv_datagram env0 1706745540 (peer 11) (line ''x'') True True sw = Inr (sw\<lparr>clients := []\<rparr>)"
    by (simp add: recv_datagram_def)
  have c: "do_main env0 [(1706745540, [(peer 11, line ''x'', True, True)])] s_full =
     Inr (s_full\<lparr>clients := [], trace := trace s_full @ [Fflush (Some ''2024-01-31.log'')]\<rparr>)"
    using t d
    by (simp add: do_main_def cycle_def cycle_body_def sw_def [symmetric])
       (simp add: sw_def drop_memory_usage_def s_full_sel)
  from r n m f c show ?thesis by (simp add: num_clients_def)
qed

section \<open>The states of the examples arise in the loop\<close>

text \<open>
  One datagram without a line terminator, shorter than the limit, from a sender not yet
  registered, while there is room.
\<close>

lemma recv_new_partial:
  assumes "scan (clients s) a 0 = None" and "int (length (clients s)) < max_clients e"
    and "newline \<notin> set buf" and "int (length buf) < wbuf_size e"
  shows "recv_datagram e now a buf True True s =
     Inr (s\<lparr>clients := clients s @ [\<lparr>addr = a, buffer = buf, addr_str = mk_addr_str a, stamp = now\<rparr>]\<rparr>)"
proof -
  define n where "n = length (clients s)"
  define c0 where "c0 = \<lparr>addr = a, buffer = [], addr_str = mk_addr_str a, stamp = 0\<rparr>"
  define c where "c = \<lparr>addr = a, buffer = buf, addr_str = mk_addr_str a, stamp = now\<rparr>"
  define sf where "sf = s\<lparr>clients := clients s @ [c0]\<rparr>"
  define sa where "sa = s\<lparr>clients := clients s @ [c]\<rparr>"
  have f: "find_client e a True s = (Some n, sf)"
    using assms(1,2) by (simp add: find_client_def n_def sf_def c0_def)
  have c0n: "c0 = clients sf ! n" by (simp add: sf_def n_def)
  have sa': "sa = sf\<lparr>clients := (clients sf)[n := c0\<lparr>stamp := (if buffer c0 = [] then now else stamp c0),
                                                  buffer := buffer c0 @ buf\<rparr>]\<rparr>"
    by (simp add: sa_def sf_def n_def c0_def c_def)
  have sw: "sa = (if newline \<in> set buf then write_logfile e n False sa else sa)"
    using assms(3) by simp
  have "\<not> wbuf_size e \<le> int (length (buffer (clients sa ! n)))"
    using assms(4) by (simp add: sa_def n_def c_def)
  then show ?thesis
    unfolding recv_datagram_eq [OF f c0n sa' sw] by (simp add: sa_def c_def)
qed

text \<open>
  The states the statements on single calls are evaluated in arise in the loop:
  \<open>s_big\<close> from \<open>s_day\<close> by a datagram of 1023 bytes, and \<open>s_jan\<close> and \<open>s_hit\<close>
  inside the receive step of a datagram, at the call of \<open>write_logfile\<close>.
\<close>

lemma s_big_arises:
  "run env0 [Datagram 1706745540 (peer 1) (replicate 1023 CHR ''a'') True True] s_day = Inr s_big"
proof -
  have "recv_datagram env0 1706745540 (peer 1) (replicate 1023 CHR ''a'') True True s_day =
      Inr (s_day\<lparr>clients := clients s_day @
        [\<lparr>addr = peer 1, buffer = replicate 1023 CHR ''a'', addr_str = mk_addr_str (peer 1),
          stamp = 1706745540\<rparr>]\<rparr>)"
    by (rule recv_new_partial) (simp_all add: s_day_def env0_def newline_def)
  then show ?thesis
    by (simp add: peer1_text s_big_def) (simp add: s_day_def)
qed

lemma s_jan_arises:
  "recv_datagram env_ro 1706745601 (peer 1) (line ''late'') True True s_eve =
     Inr (write_logfile env_ro 0 False s_jan)"
proof -
  define c0 where "c0 = \<lparr>addr = peer 1, buffer = [], addr_str = mk_addr_str (peer 1), stamp = 0\<rparr>"
  define sf where "sf = s_eve\<lparr>clients := [c0]\<rparr>"
  have f: "find_client env_ro (peer 1) True s_eve = (Some 0, sf)"
    by (simp add: find_client_def s_eve_def s_jan_def env_ro_def env0_def sf_def c0_def)
  have c0n: "c0 = clients sf ! 0" by (simp add: sf_def)
  have sa: "s_jan = sf\<lparr>clients := (clients sf)[0 := c0\<lparr>stamp := (if buffer c0 = [] then 1706745601 else stamp c0),
                                                  buffer := buffer c0 @ line ''late''\<rparr>]\<rparr>"
    by (simp add: sf_def c0_def s_eve_def s_jan_def peer1_text)
  have sw: "write_logfile env_ro 0 False s_jan =
      (if newline \<in> set (line ''late'') then write_logfile env_ro 0 False s_jan else s_jan)"
    by (simp add: newline_in_line)
  have nl: "newline \<notin> set ''late''" by (simp add: newline_def)
  have "buffer (clients (write_logfile env_ro 0 False s_jan) ! 0) = []"
    by (simp add: clients_write_logfile s_jan_def remainder_one [OF nl])
  then have "\<not> wbuf_size env_ro \<le> int (length (buffer (clients (write_logfile env_ro 0 False s_jan) ! 0)))"
    by (simp add: env_ro_def env0_def)
  then show ?thesis
    unfolding recv_datagram_eq [OF f c0n sa sw] by simp
qed

lemma s_hit_arises:
  "recv_datagram env0 1706745540 (peer 1) (line ''hi'' @ ''yo'') True True s_day =
     Inr (write_logfile env0 0 False s_hit)"
proof -
  define c0 where "c0 = \<lparr>addr = peer 1, buffer = [], addr_str = mk_addr_str (peer 1), stamp = 0\<rparr>"
  define sf where "sf = s_day\<lparr>clients := [c0]\<rparr>"
  have f: "find_client env0 (peer 1) True s_day = (Some 0, sf)"
    by (simp add: find_client_def s_day_def env0_def sf_def c0_def)
  have c0n: "c0 = clients sf ! 0" by (simp add: sf_def)
  have sa: "s_hit = sf\<lparr>clients := (clients sf)[0 := c0\<lparr>stamp := (if buffer c0 = [] then 1706745540 else stamp c0),
                                                  buffer := buffer c0 @ (line ''hi'' @ ''yo'')\<rparr>]\<rparr>"
    by (simp add: sf_def c0_def s_hit_def peer1_text)
  have sw: "write_logfile env0 0 False s_hit =
      (if newline \<in> set (line ''hi'' @ ''yo'') then write_logfile env0 0 False s_hit else s_hit)"
    by (simp add: newline_in_line)
  have "buffer (clients (write_logfile env0 0 False s_hit) ! 0) = ''yo''"
    by (simp add: clients_write_logfile s_hit_def hi_yo)
  then have "\<not> wbuf_size env0 \<le> int (length (buffer (clients (write_logfile env0 0 False s_hit) ! 0)))"
    by (simp add: env0_def)
  then show ?thesis
    unfolding recv_datagram_eq [OF f c0n sa sw] by simp
qed

end
